theory Spec2Isabelle
  imports
    Main
    "HOL-Library.Char_ord"
    "HOL-Library.List_Lexorder"
    "HOL-Library.AList"
begin

section \<open>Regular expressions as the wiki uses them\<close>

text \<open>
  The wiki compiles two patterns with Go's \<^verbatim>\<open>regexp\<close> package:
  \<^verbatim>\<open>^/(edit|save|view)/([a-zA-Z0-9]+)$\<close> for request paths and
  \<^verbatim>\<open>\[([a-zA-Z0-9]+)\]\<close> for link markers. The syntax tree below has the
  operators of \<^verbatim>\<open>regexp/syntax\<close> that these two patterns use. Strings are byte
  strings; every literal and class of the two patterns is ASCII, and no byte of a
  multi-byte UTF-8 sequence is ASCII, so matching bytes finds the matches that matching
  runes finds.
\<close>

datatype regexp =
    OpLiteral string
  | OpCharClass "(char \<times> char) list"
  | OpBeginText
  | OpEndText
  | OpCapture nat regexp
  | OpPlus regexp
  | OpConcat regexp regexp
  | OpAlternate regexp regexp

text \<open>
  A matcher state: the offset reached in the text, the text still to be read from that
  offset on, and the text of the capture groups closed so far.
\<close>

record mstate =
  pos :: nat
  rest :: string
  caps :: "nat \<rightharpoonup> string"

definition in_class :: "(char \<times> char) list \<Rightarrow> char \<Rightarrow> bool" where
  "in_class rs c = list_ex (\<lambda>(lo, hi). lo \<le> c \<and> c \<le> hi) rs"

text \<open>
  \<open>run r st\<close> lists, in the order of preference of a leftmost-first (Perl-like) matcher,
  every state in which a match of \<open>r\<close> that starts in \<open>st\<close> can end: the left branch of an
  alternation before the right one, and a further iteration of \<open>+\<close> before stopping.
  An iteration that read nothing is not iterated again.
\<close>

function run :: "regexp \<Rightarrow> mstate \<Rightarrow> mstate list" where
  "run (OpLiteral w) st =
     (if take (length w) (rest st) = w
      then [st\<lparr>pos := pos st + length w, rest := drop (length w) (rest st)\<rparr>] else [])"
| "run (OpCharClass rs) st =
     (case rest st of
        [] \<Rightarrow> []
      | c # cs \<Rightarrow> if in_class rs c then [st\<lparr>pos := Suc (pos st), rest := cs\<rparr>] else [])"
| "run OpBeginText st = (if pos st = 0 then [st] else [])"
| "run OpEndText st = (if rest st = [] then [st] else [])"
| "run (OpCapture i r) st =
     map (\<lambda>st'. st'\<lparr>caps := (caps st')(i \<mapsto> take (pos st' - pos st) (rest st))\<rparr>) (run r st)"
| "run (OpPlus r) st =
     concat (map (\<lambda>st'. (if length (rest st') < length (rest st) then run (OpPlus r) st' else [])
                          @ [st'])
                 (run r st))"
| "run (OpConcat r1 r2) st = concat (map (run r2) (run r1 st))"
| "run (OpAlternate r1 r2) st = run r1 st @ run r2 st"
  by pat_completeness auto
termination
  by (relation "measures [\<lambda>(r, st). size r, \<lambda>(r, st). length (rest st)]") auto

declare run.simps(6) [simp del]

fun NumSubexp :: "regexp \<Rightarrow> nat" where
  "NumSubexp (OpCapture i r) = Suc (NumSubexp r)"
| "NumSubexp (OpPlus r) = NumSubexp r"
| "NumSubexp (OpConcat r1 r2) = NumSubexp r1 + NumSubexp r2"
| "NumSubexp (OpAlternate r1 r2) = NumSubexp r1 + NumSubexp r2"
| "NumSubexp r = 0"

text \<open>
  The leftmost match: the first start offset at which the pattern matches at all, and
  there the match the matcher prefers. \<open>find_from re p s\<close> searches the text \<open>s\<close>, which
  begins at offset \<open>p\<close>.
\<close>

fun find_from :: "regexp \<Rightarrow> nat \<Rightarrow> string \<Rightarrow> (nat \<times> mstate) option" where
  "find_from re p [] =
     (case run re \<lparr>pos = p, rest = [], caps = Map.empty\<rparr> of
        [] \<Rightarrow> None
      | st # _ \<Rightarrow> Some (p, st))"
| "find_from re p (c # cs) =
     (case run re \<lparr>pos = p, rest = c # cs, caps = Map.empty\<rparr> of
        [] \<Rightarrow> find_from re (Suc p) cs
      | st # _ \<Rightarrow> Some (p, st))"

text \<open>
  \<^verbatim>\<open>Regexp.FindStringSubmatch\<close>: \<open>None\<close> is Go's nil; otherwise the text of the
  leftmost match followed by the text of each capture group (empty for a group that
  took no part in the match).
\<close>

definition FindStringSubmatch :: "regexp \<Rightarrow> string \<Rightarrow> string list option" where
  "FindStringSubmatch re s =
     (case find_from re 0 s of
        None \<Rightarrow> None
      | Some (a, st) \<Rightarrow>
          Some (take (pos st - a) (drop a s)
                # map (\<lambda>i. case caps st i of None \<Rightarrow> [] | Some v \<Rightarrow> v)
                      [1..<Suc (NumSubexp re)]))"

text \<open>
  \<^verbatim>\<open>Regexp.ReplaceAllStringFunc\<close>: the text is read from left to right; the text
  between matches is copied, each match is replaced by \<open>repl\<close> of the matched text, and
  the search goes on behind the match. As in Go, a match of the empty string is
  replaced unless it lies right behind the previous match (\<open>after\<close>), and the search then
  moves on by one character.
\<close>

function replaceAll :: "regexp \<Rightarrow> (string \<Rightarrow> string) \<Rightarrow> bool \<Rightarrow> nat \<Rightarrow> string \<Rightarrow> string" where
  "replaceAll re repl after p s =
     (case run re \<lparr>pos = p, rest = s, caps = Map.empty\<rparr> of
        [] \<Rightarrow> (case s of [] \<Rightarrow> [] | c # cs \<Rightarrow> c # replaceAll re repl False (Suc p) cs)
      | st # _ \<Rightarrow>
          if length (rest st) < length s
          then repl (take (length s - length (rest st)) s)
               @ replaceAll re repl True (p + (length s - length (rest st))) (rest st)
          else (if after then [] else repl [])
               @ (case s of [] \<Rightarrow> [] | c # cs \<Rightarrow> c # replaceAll re repl False (Suc p) cs))"
  by pat_completeness auto
termination
  by (relation "measure (\<lambda>(re, repl, after, p, s). length s)") auto

declare replaceAll.simps [simp del]

definition ReplaceAllStringFunc :: "regexp \<Rightarrow> string \<Rightarrow> (string \<Rightarrow> string) \<Rightarrow> string" where
  "ReplaceAllStringFunc re src repl = replaceAll re repl False 0 src"


section \<open>The operating system's files\<close>

text \<open>
  The file system is a finite map from clean slash-separated paths to nodes, written
  as an association list in which the first entry for a path is the one that counts.
  Every call the wiki makes is written to \<open>calls\<close>, so that "no access to the store" is
  a statement about the state. Permission bits are recorded with the call and not
  interpreted: the process is taken to own what it opens and the device to have room,
  so the failures of a call are those of the shape of the tree and of the length of a
  file name. Concurrent requests are not modelled: a handler runs from its first
  call to its last without another one in between.
\<close>

type_synonym bytes = string

datatype node = RegularFile bytes | Directory

datatype errno = ENOENT | EISDIR | ENOTDIR | ENAMETOOLONG

datatype PathError = PathError string string errno

fun errno_text :: "errno \<Rightarrow> string" where
  "errno_text ENOENT = ''no such file or directory''"
| "errno_text EISDIR = ''is a directory''"
| "errno_text ENOTDIR = ''not a directory''"
| "errno_text ENAMETOOLONG = ''file name too long''"

fun Error :: "PathError \<Rightarrow> string" where
  "Error (PathError op path e) = op @ '' '' @ path @ '': '' @ errno_text e"

datatype syscall =
    SysWriteFile string bytes nat
  | SysReadFile string
  | SysReadDir string

record filesystem =
  nodes :: "(string \<times> node) list"
  calls :: "syscall list"

record DirEntry =
  Name :: string
  IsDir :: bool

definition lookup :: "filesystem \<Rightarrow> string \<Rightarrow> node option" where
  "lookup fs path = map_of (nodes fs) path"

text \<open>
  \<^verbatim>\<open>filepath.Join\<close>, \<^verbatim>\<open>filepath.Dir\<close> and \<^verbatim>\<open>filepath.Base\<close> on clean paths: Go also
  cleans the result (\<^verbatim>\<open>..\<close>, doubled or trailing separators), which changes nothing
  for the paths the handlers build from a directory name and a file name without
  separator.
\<close>

definition filepath_Join :: "string \<Rightarrow> string \<Rightarrow> string" where
  "filepath_Join dir file = dir @ ''/'' @ file"

definition filepath_Dir :: "string \<Rightarrow> string" where
  "filepath_Dir path = rev (drop 1 (dropWhile (\<lambda>c. c \<noteq> CHR ''/'') (rev path)))"

definition filepath_Base :: "string \<Rightarrow> string" where
  "filepath_Base path = rev (takeWhile (\<lambda>c. c \<noteq> CHR ''/'') (rev path))"

definition child_of :: "string \<Rightarrow> string \<Rightarrow> bool" where
  "child_of dir path =
     (CHR ''/'' \<in> set path \<and> filepath_Dir path = dir \<and> filepath_Base path \<noteq> [])"

text \<open>
  The longest file name, in bytes, that a directory takes (\<^verbatim>\<open>NAME_MAX\<close> of Linux
  file systems).
\<close>

definition NAME_MAX :: nat where
  "NAME_MAX = 255"

text \<open>
  What stops the opening of a path before its last component is looked at: the
  directory it is to be in does not exist or is not a directory, or the file name is
  longer than a directory takes. (A path without separator would be relative to the
  working directory, which is not part of the state; the wiki opens no such path.)
\<close>

definition open_errno :: "filesystem \<Rightarrow> string \<Rightarrow> errno option" where
  "open_errno fs name =
     (case lookup fs (filepath_Dir name) of
        None \<Rightarrow> Some ENOENT
      | Some (RegularFile _) \<Rightarrow> Some ENOTDIR
      | Some Directory \<Rightarrow>
          if NAME_MAX < length (filepath_Base name) then Some ENAMETOOLONG else None)"

text \<open>
  \<^verbatim>\<open>os.WriteFile\<close> creates the file or replaces its content. It fails when the
  path cannot be opened, and when the path names a directory.
\<close>

definition os_WriteFile ::
    "string \<Rightarrow> bytes \<Rightarrow> nat \<Rightarrow> filesystem \<Rightarrow> filesystem \<times> PathError option" where
  "os_WriteFile name data perm fs =
     (let fs' = fs\<lparr>calls := calls fs @ [SysWriteFile name data perm]\<rparr> in
      case open_errno fs name of
        Some e \<Rightarrow> (fs', Some (PathError ''open'' name e))
      | None \<Rightarrow>
          (case lookup fs name of
             Some Directory \<Rightarrow> (fs', Some (PathError ''open'' name EISDIR))
           | _ \<Rightarrow> (fs'\<lparr>nodes := AList.update name (RegularFile data) (nodes fs)\<rparr>, None)))"

text \<open>
  \<^verbatim>\<open>os.ReadFile\<close>. A node is taken to sit in a directory under a name within the
  limit, as the nodes \<open>os_WriteFile\<close> makes do, so what stops the opening is asked for
  only where there is no node.
\<close>

definition os_ReadFile :: "string \<Rightarrow> filesystem \<Rightarrow> filesystem \<times> (PathError + bytes)" where
  "os_ReadFile name fs =
     (let fs' = fs\<lparr>calls := calls fs @ [SysReadFile name]\<rparr> in
      case lookup fs name of
        None \<Rightarrow>
          (fs', Inl (PathError ''open'' name
                      (case open_errno fs name of Some e \<Rightarrow> e | None \<Rightarrow> ENOENT)))
      | Some Directory \<Rightarrow> (fs', Inl (PathError ''read'' name EISDIR))
      | Some (RegularFile data) \<Rightarrow> (fs', Inr data))"

text \<open>\<^verbatim>\<open>os.ReadDir\<close> returns the entries of a directory sorted by file name.\<close>

definition os_ReadDir ::
    "string \<Rightarrow> filesystem \<Rightarrow> filesystem \<times> (PathError + DirEntry list)" where
  "os_ReadDir name fs =
     (let fs' = fs\<lparr>calls := calls fs @ [SysReadDir name]\<rparr> in
      case lookup fs name of
        None \<Rightarrow> (fs', Inl (PathError ''open'' name ENOENT))
      | Some (RegularFile _) \<Rightarrow> (fs', Inl (PathError ''open'' name ENOTDIR))
      | Some Directory \<Rightarrow>
          (fs', Inr (sort_key Name
                   (map (\<lambda>(path, nd). \<lparr>Name = filepath_Base path, IsDir = (nd = Directory)\<rparr>)
                        (filter (\<lambda>(path, nd). child_of name path)
                                (AList.clearjunk (nodes fs)))))))"

definition strings_HasSuffix :: "string \<Rightarrow> string \<Rightarrow> bool" where
  "strings_HasSuffix s suffix =
     (length suffix \<le> length s \<and> drop (length s - length suffix) s = suffix)"

definition strings_TrimSuffix :: "string \<Rightarrow> string \<Rightarrow> string" where
  "strings_TrimSuffix s suffix =
     (if strings_HasSuffix s suffix then take (length s - length suffix) s else s)"

section \<open>The wiki: pages and their store\<close>

record Page =
  Title :: string
  Body :: bytes

record IndexPage =
  Pages :: "string list"

definition savePath :: string where
  "savePath = ''data''"

definition templatePath :: string where
  "templatePath = ''templates''"

definition alnum :: "(char \<times> char) list" where
  "alnum = [(CHR ''a'', CHR ''z''), (CHR ''A'', CHR ''Z''), (CHR ''0'', CHR ''9'')]"

text \<open>\<^verbatim>\<open>regexp.MustCompile("^/(edit|save|view)/([a-zA-Z0-9]+)$")\<close>\<close>

definition validPath :: regexp where
  "validPath =
     OpConcat OpBeginText
    (OpConcat (OpLiteral ''/'')
    (OpConcat (OpCapture 1 (OpAlternate (OpLiteral ''edit'')
                           (OpAlternate (OpLiteral ''save'') (OpLiteral ''view''))))
    (OpConcat (OpLiteral ''/'')
    (OpConcat (OpCapture 2 (OpPlus (OpCharClass alnum)))
              OpEndText))))"

text \<open>\<open>Page.save\<close>; 0600 is octal.\<close>

definition save :: "Page \<Rightarrow> filesystem \<Rightarrow> filesystem \<times> PathError option" where
  "save p fs =
     (let filename = Title p @ ''.txt'';
          filePath = filepath_Join savePath filename
      in os_WriteFile filePath (Body p) 384 fs)"

definition loadPage :: "string \<Rightarrow> filesystem \<Rightarrow> filesystem \<times> (PathError + Page)" where
  "loadPage title fs =
     (let filename = title @ ''.txt'';
          filePath = filepath_Join savePath filename
      in case os_ReadFile filePath fs of
           (fs', Inl err) \<Rightarrow> (fs', Inl err)
         | (fs', Inr body) \<Rightarrow> (fs', Inr \<lparr>Title = title, Body = body\<rparr>))"

text \<open>The loop of \<open>getAllPages\<close> over the directory entries; \<open>pages\<close> is the slice so far.\<close>

fun collect_pages :: "DirEntry list \<Rightarrow> string list \<Rightarrow> string list" where
  "collect_pages [] pages = pages"
| "collect_pages (file # files) pages =
     (if \<not> IsDir file \<and> strings_HasSuffix (Name file) ''.txt''
      then let pageName = strings_TrimSuffix (Name file) ''.txt''
           in collect_pages files (pages @ [pageName])
      else collect_pages files pages)"

definition getAllPages :: "filesystem \<Rightarrow> filesystem \<times> (PathError + string list)" where
  "getAllPages fs =
     (case os_ReadDir savePath fs of
        (fs', Inl err) \<Rightarrow> (fs', Inl err)
      | (fs', Inr files) \<Rightarrow> (fs', Inr (collect_pages files [])))"

section \<open>The wiki: rendering\<close>

text \<open>\<^verbatim>\<open>regexp.MustCompile(`\[([a-zA-Z0-9]+)\]`)\<close>\<close>

definition link_re :: regexp where
  "link_re =
     OpConcat (OpLiteral ''['')
    (OpConcat (OpCapture 1 (OpPlus (OpCharClass alnum)))
              (OpLiteral '']''))"

text \<open>
  \<open>processLinks\<close>. The slice \<^verbatim>\<open>match[1 : len(match)-1]\<close> is the match without its
  first and its last byte (a match has at least three bytes).
\<close>

definition processLinks :: "bytes \<Rightarrow> string" where
  "processLinks body =
     (let s = body;
          re = link_re
      in ReplaceAllStringFunc re s
           (\<lambda>match.
              let pageName = take (length match - 1 - 1) (drop 1 match)
              in ''<a href=\"/view/'' @ pageName @ ''\">'' @ pageName @ ''</a>''))"

text \<open>
  The data a template is executed with, and the template set: executing the named
  template with the data gives an error message or the output. The handlers take the
  template set as a parameter.
\<close>

datatype tdata = PageData Page | IndexData IndexPage

type_synonym 'o template_set = "string \<Rightarrow> tdata \<Rightarrow> string + 'o"

text \<open>
  A response: the output of a template, written with status 200; \<^verbatim>\<open>http.Redirect\<close>
  with its target and status; \<^verbatim>\<open>http.Error\<close> with its message and status; or a
  run-time panic of the handler. (\<^verbatim>\<open>http.Redirect\<close> also cleans the target path,
  which changes nothing for a slash, a keyword, a slash and a page name.)
\<close>

datatype 'o response =
    Written 'o
  | Redirect string nat
  | HttpError string nat
  | Panic

definition StatusFound :: nat where
  "StatusFound = 302"

definition StatusNotFound :: nat where
  "StatusNotFound = 404"

definition StatusInternalServerError :: nat where
  "StatusInternalServerError = 500"

definition http_NotFound :: "'o response" where
  "http_NotFound = HttpError ''404 page not found'' StatusNotFound"

definition renderTemplate :: "'o template_set \<Rightarrow> string \<Rightarrow> Page \<Rightarrow> 'o response" where
  "renderTemplate templates tmpl p =
     (case templates (tmpl @ ''.html'') (PageData p) of
        Inl err \<Rightarrow> HttpError err StatusInternalServerError
      | Inr out \<Rightarrow> Written out)"

definition renderIndexTemplate :: "'o template_set \<Rightarrow> string \<Rightarrow> IndexPage \<Rightarrow> 'o response" where
  "renderIndexTemplate templates tmpl indexData =
     (case templates (tmpl @ ''.html'') (IndexData indexData) of
        Inl err \<Rightarrow> HttpError err StatusInternalServerError
      | Inr out \<Rightarrow> Written out)"

text \<open>
  What the templates show, kept as a value and not as markup: the view of a page with
  its name and the body as displayed, the edit form of a page with its name and the
  content of the editable field, and the listing with its names
  (\<^verbatim>\<open>templates/index.html\<close> lists them as links, or says that there are none).
\<close>

datatype presentation =
    ViewPresentation string string
  | EditPresentation string bytes
  | IndexPresentation "string list"

text \<open>
  Modelled from the spec: the files \<^verbatim>\<open>templates/view.html\<close> and
  \<^verbatim>\<open>templates/edit.html\<close> are not among the sources. The spec says of them that
  the view template invokes the link transform on the body before display and that the
  edit template presents the raw body in an editable field.
\<close>

definition spec_templates :: "presentation template_set" where
  "spec_templates name d =
     (case d of
        PageData p \<Rightarrow>
          if name = ''view.html'' then Inr (ViewPresentation (Title p) (processLinks (Body p)))
          else if name = ''edit.html'' then Inr (EditPresentation (Title p) (Body p))
          else Inl (''html/template: '' @ name @ '' cannot show a page'')
      | IndexData i \<Rightarrow>
          if name = ''index.html'' then Inr (IndexPresentation (Pages i))
          else Inl (''html/template: '' @ name @ '' cannot show a listing''))"

section \<open>The wiki: handlers\<close>

text \<open>
  A request, as far as the handlers read it: the path of its URL and its form values
  (\<^verbatim>\<open>url.Values\<close>, a list of values for each key). \<^verbatim>\<open>Request.FormValue\<close> is the
  first value of the key, or the empty string.
\<close>

record Request =
  URL_Path :: string
  Form :: "(string \<times> string list) list"

definition FormValue :: "Request \<Rightarrow> string \<Rightarrow> string" where
  "FormValue r key =
     (case map_of (Form r) key of
        None \<Rightarrow> []
      | Some [] \<Rightarrow> []
      | Some (v # _) \<Rightarrow> v)"

type_synonym 'o handler = "Request \<Rightarrow> filesystem \<Rightarrow> filesystem \<times> 'o response"

definition indexHandler :: "'o template_set \<Rightarrow> 'o handler" where
  "indexHandler templates r fs =
     (case getAllPages fs of
        (fs', Inl err) \<Rightarrow> (fs', HttpError (Error err) StatusInternalServerError)
      | (fs', Inr pages) \<Rightarrow>
          (let indexData = \<lparr>Pages = pages\<rparr>
           in (fs', renderIndexTemplate templates ''index'' indexData)))"

definition viewHandler :: "'o template_set \<Rightarrow> Request \<Rightarrow> string \<Rightarrow> filesystem
    \<Rightarrow> filesystem \<times> 'o response" where
  "viewHandler templates r title fs =
     (case loadPage title fs of
        (fs', Inl err) \<Rightarrow> (fs', Redirect (''/edit/'' @ title) StatusFound)
      | (fs', Inr p) \<Rightarrow> (fs', renderTemplate templates ''view'' p))"

definition editHandler :: "'o template_set \<Rightarrow> Request \<Rightarrow> string \<Rightarrow> filesystem
    \<Rightarrow> filesystem \<times> 'o response" where
  "editHandler templates r title fs =
     (case loadPage title fs of
        (fs', Inl err) \<Rightarrow> (fs', renderTemplate templates ''edit'' \<lparr>Title = title, Body = []\<rparr>)
      | (fs', Inr p) \<Rightarrow> (fs', renderTemplate templates ''edit'' p))"

definition saveHandler :: "'o template_set \<Rightarrow> Request \<Rightarrow> string \<Rightarrow> filesystem
    \<Rightarrow> filesystem \<times> 'o response" where
  "saveHandler templates r title fs =
     (let body = FormValue r ''body'';
          p = \<lparr>Title = title, Body = body\<rparr>
      in case save p fs of
           (fs', Some err) \<Rightarrow> (fs', HttpError (Error err) StatusInternalServerError)
         | (fs', None) \<Rightarrow> (fs', Redirect (''/view/'' @ title) StatusFound))"

definition rootHandler :: "'o template_set \<Rightarrow> 'o handler" where
  "rootHandler templates r fs =
     (if URL_Path r = ''/'' then indexHandler templates r fs
      else (fs, http_NotFound))"

text \<open>
  \<open>makeHandler\<close>. Indexing the match with 2 panics in Go when the slice is shorter;
  \<open>validPath\<close> has two groups, so its matches have three elements.
\<close>

definition makeHandler ::
    "(Request \<Rightarrow> string \<Rightarrow> filesystem \<Rightarrow> filesystem \<times> 'o response) \<Rightarrow> 'o handler" where
  "makeHandler fn r fs =
     (case FindStringSubmatch validPath (URL_Path r) of
        None \<Rightarrow> (fs, http_NotFound)
      | Some m \<Rightarrow> if 2 < length m then fn r (m ! 2) fs else (fs, Panic))"

section \<open>The words of the specification\<close>

text \<open>
  The page name grammar as the specification words it: one or more characters, each
  an ASCII letter or digit.
\<close>

definition letters_and_digits :: string where
  "letters_and_digits = ''abcdefghijklmnopqrstuvwxyzABCDEFGHIJKLMNOPQRSTUVWXYZ0123456789''"

definition is_page_name :: "string \<Rightarrow> bool" where
  "is_page_name s = (s \<noteq> [] \<and> list_all (\<lambda>c. c \<in> set letters_and_digits) s)"


section \<open>Auxiliary notions for the proofs\<close>

text \<open>The path of the record of a page, as \<open>save\<close> and \<open>loadPage\<close> build it.\<close>

definition page_file :: "string \<Rightarrow> string" where
  "page_file n = filepath_Join savePath (n @ ''.txt'')"

text \<open>
  The link marker a text begins with, if it begins with one: the name between the
  brackets and the text behind the closing bracket.
\<close>

definition link_at :: "string \<Rightarrow> (string \<times> string) option" where
  "link_at s =
     (let n = takeWhile (in_class alnum) (drop 1 s)
      in if take 1 s = ''['' \<and> n \<noteq> [] \<and> take 1 (drop (Suc (length n)) s) = '']''
         then Some (n, drop (length n + 2) s) else None)"

text \<open>What \<open>processLinks\<close> puts in the place of a marker.\<close>

definition anchor :: "string \<Rightarrow> string" where
  "anchor pageName = ''<a href=\"/view/'' @ pageName @ ''\">'' @ pageName @ ''</a>''"

text \<open>The entries \<^verbatim>\<open>os.ReadDir\<close> returns for a directory.\<close>

definition dir_entries :: "string \<Rightarrow> filesystem \<Rightarrow> DirEntry list" where
  "dir_entries name fs =
     sort_key Name
       (map (\<lambda>(path, nd). \<lparr>Name = filepath_Base path, IsDir = (nd = Directory)\<rparr>)
            (filter (\<lambda>(path, nd). child_of name path) (AList.clearjunk (nodes fs))))"

text \<open>
  A state lies ahead of another in the same text: its remaining text is what is left of
  the other's after as many characters as its offset is greater.
\<close>

definition reaches :: "mstate \<Rightarrow> mstate \<Rightarrow> bool" where
  "reaches st st' =
     (rest st' = drop (pos st' - pos st) (rest st) \<and> pos st \<le> pos st'
      \<and> pos st' \<le> pos st + length (rest st))"

section \<open>The matcher\<close>

text \<open>
  Offsets and remaining text move together: a state the matcher reaches is further on
  in the same text by exactly the number of characters its offset has grown. So the
  length of a match is the same whether it is read off the offsets, as for the capture
  groups, or off the remaining text, as in \<open>replaceAll\<close>.
\<close>

lemma reaches_trans: "reaches st s1 \<Longrightarrow> reaches s1 st' \<Longrightarrow> reaches st st'"
  by (auto simp: reaches_def)

lemma run_offsets: "st' \<in> set (run r st) \<Longrightarrow> reaches st st'"
proof (induction r st arbitrary: st' rule: run.induct)
  case (1 w st)
  then have t: "take (length w) (rest st) = w"
    and s: "st' = st\<lparr>pos := pos st + length w, rest := drop (length w) (rest st)\<rparr>"
    by (simp_all split: if_splits)
  have "length w \<le> length (rest st)"
    using arg_cong [OF t, of length] by simp
  then show ?case using s by (simp add: reaches_def)
next
  case (2 rs st)
  show ?case
  proof (cases "rest st")
    case Nil
    with 2 show ?thesis by simp
  next
    case (Cons c cs)
    with 2 show ?thesis by (simp add: reaches_def split: if_splits)
  qed
next
  case (3 st)
  then show ?case by (simp add: reaches_def split: if_splits)
next
  case (4 st)
  then show ?case by (simp add: reaches_def split: if_splits)
next
  case (5 i r st)
  then show ?case by (auto simp: reaches_def)
next
  case (6 r st)
  from "6.prems" obtain s1 where s1: "s1 \<in> set (run r st)"
    and d: "st' = s1 \<or> (length (rest s1) < length (rest st) \<and> st' \<in> set (run (OpPlus r) s1))"
    by (subst (asm) run.simps(6)) (auto split: if_splits)
  have a: "reaches st s1" using "6.IH"(1) [OF s1] .
  from d show ?case
  proof
    assume "st' = s1"
    with a show ?thesis by simp
  next
    assume "length (rest s1) < length (rest st) \<and> st' \<in> set (run (OpPlus r) s1)"
    with "6.IH"(2) [OF s1] have "reaches s1 st'" by blast
    with a show ?thesis by (rule reaches_trans)
  qed
next
  case (7 r1 r2 st)
  from "7.prems" obtain s1 where s1: "s1 \<in> set (run r1 st)" and s2: "st' \<in> set (run r2 s1)"
    by auto
  from "7.IH"(1) [OF s1] "7.IH"(2) [OF s1 s2] show ?case by (rule reaches_trans)
next
  case (8 r1 r2 st)
  then show ?case by auto
qed

lemma run_consumed:
  assumes "st' \<in> set (run r st)"
  shows "length (rest st) - length (rest st') = pos st' - pos st"
    and "take (length (rest st) - length (rest st')) (rest st) @ rest st' = rest st"
proof -
  from run_offsets [OF assms] have r: "rest st' = drop (pos st' - pos st) (rest st)"
    and b: "pos st' - pos st \<le> length (rest st)"
    by (auto simp: reaches_def)
  show 1: "length (rest st) - length (rest st') = pos st' - pos st"
    using b by (simp add: r)
  show "take (length (rest st) - length (rest st')) (rest st) @ rest st' = rest st"
    unfolding 1 by (simp add: r)
qed

section \<open>The route pattern\<close>

lemma concat_rev_upt_last:
  assumes "\<And>k. 1 \<le> k \<Longrightarrow> k < m \<Longrightarrow> f k = []"
  shows "concat (map f (rev [1..<Suc m])) = (if m = 0 then [] else f m)"
proof (cases m)
  case 0
  then show ?thesis by simp
next
  case (Suc n)
  have "concat (map f (rev [1..<Suc n])) = []"
    using assms Suc by (auto simp del: upt_Suc)
  then show ?thesis using Suc by simp
qed

lemma upt_one_Suc_Suc: "[Suc 0..<Suc (Suc m)] = Suc 0 # map Suc [Suc 0..<Suc m]"
  by (simp del: upt_Suc add: upt_conv_Cons map_Suc_upt)

lemma run_plus_class:
  "run (OpPlus (OpCharClass rs)) st =
     map (\<lambda>k. st\<lparr>pos := pos st + k, rest := drop k (rest st)\<rparr>)
         (rev [1..<Suc (length (takeWhile (in_class rs) (rest st)))])"
proof (induction "rest st" arbitrary: st)
  case Nil
  then show ?case by (subst run.simps(6)) (simp flip: Nil)
next
  case (Cons c cs)
  let ?st1 = "st\<lparr>pos := Suc (pos st), rest := cs\<rparr>"
  have r: "rest st = c # cs" using Cons.hyps(2) by simp
  show ?case
  proof (cases "in_class rs c")
    case False
    then show ?thesis using r by (subst run.simps(6)) simp
  next
    case True
    have ih: "run (OpPlus (OpCharClass rs)) ?st1 =
       map (\<lambda>k. ?st1\<lparr>pos := pos ?st1 + k, rest := drop k (rest ?st1)\<rparr>)
         (rev [1..<Suc (length (takeWhile (in_class rs) (rest ?st1)))])"
      by (rule Cons.hyps(1)) simp
    have "run (OpPlus (OpCharClass rs)) st = run (OpPlus (OpCharClass rs)) ?st1 @ [?st1]"
      using r True by (subst run.simps(6)) simp
    also have "\<dots> = map (\<lambda>k. st\<lparr>pos := pos st + k, rest := drop k (rest st)\<rparr>)
         (rev [1..<Suc (Suc (length (takeWhile (in_class rs) cs)))])"
      unfolding ih using r
      by (simp del: upt_Suc add: upt_one_Suc_Suc rev_map comp_def)
    finally show ?thesis using r True by simp
  qed
qed


lemma in_class_alnum: "in_class alnum c \<longleftrightarrow> c \<in> set letters_and_digits"
  by (cases c) (simp add: in_class_def alnum_def letters_and_digits_def less_eq_char_def)

lemma takeWhile_alnum_all:
  "length (takeWhile (in_class alnum) s) = length s \<longleftrightarrow> list_all (\<lambda>c. c \<in> set letters_and_digits) s"
  by (induction s) (auto simp: in_class_alnum)

lemma run_name_end:
  "run (OpConcat (OpCapture i (OpPlus (OpCharClass alnum))) OpEndText) st =
     (if is_page_name (rest st)
      then [st\<lparr>pos := pos st + length (rest st), rest := [], caps := (caps st)(i \<mapsto> rest st)\<rparr>]
      else [])"
proof -
  let ?m = "length (takeWhile (in_class alnum) (rest st))"
  let ?f = "\<lambda>k. run OpEndText
               (st\<lparr>pos := pos st + k, rest := drop k (rest st),
                   caps := (caps st)(i \<mapsto> take k (rest st))\<rparr>)"
  have le: "?m \<le> length (rest st)" by (rule length_takeWhile_le)
  have "run (OpConcat (OpCapture i (OpPlus (OpCharClass alnum))) OpEndText) st
        = concat (map ?f (rev [1..<Suc ?m]))"
    by (simp add: run_plus_class comp_def del: upt_Suc)
  also have "\<dots> = (if ?m = 0 then [] else ?f ?m)"
    using le by (intro concat_rev_upt_last) simp
  also have "\<dots> = (if is_page_name (rest st)
      then [st\<lparr>pos := pos st + length (rest st), rest := [], caps := (caps st)(i \<mapsto> rest st)\<rparr>]
      else [])"
  proof (cases "?m = length (rest st)")
    case True
    then show ?thesis
      using takeWhile_alnum_all [of "rest st"] by (auto simp: is_page_name_def)
  next
    case False
    then have "\<not> is_page_name (rest st)"
      using takeWhile_alnum_all [of "rest st"] by (simp add: is_page_name_def)
    then show ?thesis using False le by simp
  qed
  finally show ?thesis .
qed

lemma validPath_run:
  "run validPath \<lparr>pos = 0, rest = p, caps = Map.empty\<rparr> =
     (if take 1 p = ''/'' \<and> take 4 (drop 1 p) \<in> {''edit'', ''save'', ''view''}
         \<and> take 1 (drop 5 p) = ''/'' \<and> is_page_name (drop 6 p)
      then [\<lparr>pos = length p, rest = [],
             caps = [1 \<mapsto> take 4 (drop 1 p), 2 \<mapsto> drop 6 p]\<rparr>]
      else [])"
proof -
  define tl where "tl = OpConcat (OpCapture 2 (OpPlus (OpCharClass alnum))) OpEndText"
  define kw where "kw = OpCapture 1 (OpAlternate (OpLiteral ''edit'')
                                    (OpAlternate (OpLiteral ''save'') (OpLiteral ''view'')))"
  have vp: "validPath = OpConcat OpBeginText (OpConcat (OpLiteral ''/'')
                          (OpConcat kw (OpConcat (OpLiteral ''/'') tl)))"
    by (simp add: validPath_def tl_def kw_def)
  have tl: "run tl st =
     (if is_page_name (rest st)
      then [st\<lparr>pos := pos st + length (rest st), rest := [], caps := (caps st)(2 \<mapsto> rest st)\<rparr>]
      else [])" for st
    unfolding tl_def by (rule run_name_end)
  have kw: "run kw st =
     (if take 4 (rest st) \<in> {''edit'', ''save'', ''view''}
      then [st\<lparr>pos := pos st + 4, rest := drop 4 (rest st),
               caps := (caps st)(1 \<mapsto> take 4 (rest st))\<rparr>]
      else [])" for st
    unfolding kw_def by (auto simp: eval_nat_numeral)
  have len: "is_page_name (drop 6 p) \<Longrightarrow> 6 < length p"
    by (auto simp: is_page_name_def)
  show ?thesis
    unfolding vp using len by (auto simp: tl kw)
qed


lemma validPath_not_at_start: "0 < p \<Longrightarrow> find_from validPath p s = None"
  by (induction s arbitrary: p) (simp_all add: validPath_def)

lemma validPath_find:
  "find_from validPath 0 p =
     (if take 1 p = ''/'' \<and> take 4 (drop 1 p) \<in> {''edit'', ''save'', ''view''}
         \<and> take 1 (drop 5 p) = ''/'' \<and> is_page_name (drop 6 p)
      then Some (0, \<lparr>pos = length p, rest = [],
             caps = [1 \<mapsto> take 4 (drop 1 p), 2 \<mapsto> drop 6 p]\<rparr>)
      else None)"
proof (cases p)
  case Nil
  then show ?thesis by (simp add: validPath_def)
next
  case (Cons c cs)
  show ?thesis
    unfolding Cons find_from.simps validPath_run
    by (simp add: validPath_not_at_start)
qed

lemma NumSubexp_validPath: "NumSubexp validPath = 2"
  by (simp add: validPath_def)

lemma upt_1_3: "[1..<Suc 2] = [1, 2]"
  by (simp add: upt_rec)

lemma validPath_FindStringSubmatch:
  "FindStringSubmatch validPath p =
     (if take 1 p = ''/'' \<and> take 4 (drop 1 p) \<in> {''edit'', ''save'', ''view''}
         \<and> take 1 (drop 5 p) = ''/'' \<and> is_page_name (drop 6 p)
      then Some [p, take 4 (drop 1 p), drop 6 p]
      else None)"
  unfolding FindStringSubmatch_def validPath_find NumSubexp_validPath upt_1_3
  by simp

lemma validPath_accepts:
  assumes "kw \<in> {''edit'', ''save'', ''view''}" and "is_page_name n"
  shows "FindStringSubmatch validPath (''/'' @ kw @ ''/'' @ n) = Some [''/'' @ kw @ ''/'' @ n, kw, n]"
  using assms unfolding validPath_FindStringSubmatch by auto

lemma validPath_inversion:
  assumes "FindStringSubmatch validPath p = Some m"
  shows "\<exists>kw n. kw \<in> {''edit'', ''save'', ''view''} \<and> is_page_name n
           \<and> p = ''/'' @ kw @ ''/'' @ n \<and> m = [p, kw, n]"
proof -
  let ?kw = "take 4 (drop 1 p)" and ?n = "drop 6 p"
  from assms have c: "take 1 p = ''/''" "?kw \<in> {''edit'', ''save'', ''view''}"
      "take 1 (drop 5 p) = ''/''" "is_page_name ?n" and m: "m = [p, ?kw, ?n]"
    unfolding validPath_FindStringSubmatch by (auto split: if_splits)
  have "p = take 1 p @ take 4 (drop 1 p) @ take 1 (drop 5 p) @ drop 6 p"
  proof -
    have "drop 5 p = take 1 (drop 5 p) @ drop 6 p"
      using append_take_drop_id [of 1 "drop 5 p"] by simp
    moreover have "drop 1 p = take 4 (drop 1 p) @ drop 5 p"
      using append_take_drop_id [of 4 "drop 1 p"] by simp
    moreover have "p = take 1 p @ drop 1 p"
      by simp
    ultimately show ?thesis by metis
  qed
  then have "p = ''/'' @ ?kw @ ''/'' @ ?n" using c by simp
  then show ?thesis using c m by blast
qed

text \<open>
  C4. The name validator is the second group of the route pattern. For every string
  \<open>s\<close> and each of the three operation keywords, the pattern matches the keyword's path
  with \<open>s\<close> in the place of the name if and only if \<open>s\<close> is non-empty and consists of
  ASCII letters and digits only; the match then gives \<open>s\<close> back as the name.
\<close>

theorem name_validator_grammar:
  "FindStringSubmatch validPath (''/edit/'' @ s)
     = (if is_page_name s then Some [''/edit/'' @ s, ''edit'', s] else None)
   \<and> FindStringSubmatch validPath (''/save/'' @ s)
     = (if is_page_name s then Some [''/save/'' @ s, ''save'', s] else None)
   \<and> FindStringSubmatch validPath (''/view/'' @ s)
     = (if is_page_name s then Some [''/view/'' @ s, ''view'', s] else None)"
  unfolding validPath_FindStringSubmatch by simp

theorem name_validator_grammar_witness:
  "FindStringSubmatch validPath ''/view/Foo2'' = Some [''/view/Foo2'', ''view'', ''Foo2'']
   \<and> FindStringSubmatch validPath ''/view/'' = None
   \<and> FindStringSubmatch validPath ''/edit/not valid'' = None
   \<and> FindStringSubmatch validPath ''/save/a_b'' = None"
  using name_validator_grammar [of "''Foo2''"] name_validator_grammar [of "''''"]
    name_validator_grammar [of "''not valid''"] name_validator_grammar [of "''a_b''"]
  by (simp add: is_page_name_def letters_and_digits_def)

text \<open>
  C3. A request whose path is not a slash, one of the keywords view, edit and save, a
  slash and a page name is answered by the router with "not found", whatever handler
  the router wraps; the file system is returned as it was, and with it the list of
  calls: nothing was read, written or listed.
\<close>

theorem invalid_route_not_found:
  assumes "\<not> (\<exists>kw n. kw \<in> {''view'', ''edit'', ''save''} \<and> is_page_name n
                  \<and> URL_Path r = ''/'' @ kw @ ''/'' @ n)"
  shows "makeHandler fn r fs = (fs, http_NotFound)"
proof (cases "FindStringSubmatch validPath (URL_Path r)")
  case None
  then show ?thesis by (simp add: makeHandler_def)
next
  case (Some m)
  from validPath_inversion [OF Some] assms show ?thesis by blast
qed

theorem invalid_route_not_found_witness:
  "makeHandler (viewHandler spec_templates) \<lparr>URL_Path = ''/view/../etc'', Form = []\<rparr>
       \<lparr>nodes = [(''data'', Directory), (''data/etc.txt'', RegularFile ''x'')], calls = []\<rparr>
     = (\<lparr>nodes = [(''data'', Directory), (''data/etc.txt'', RegularFile ''x'')], calls = []\<rparr>,
        http_NotFound)
   \<and> makeHandler (saveHandler spec_templates)
         \<lparr>URL_Path = ''/delete/Home'', Form = [(''body'', [''x''])]\<rparr>
         \<lparr>nodes = [(''data'', Directory)], calls = []\<rparr>
     = (\<lparr>nodes = [(''data'', Directory)], calls = []\<rparr>, http_NotFound)
   \<and> makeHandler (editHandler spec_templates) \<lparr>URL_Path = ''/edit/'', Form = []\<rparr>
         \<lparr>nodes = [(''data'', Directory)], calls = []\<rparr>
     = (\<lparr>nodes = [(''data'', Directory)], calls = []\<rparr>, http_NotFound)
   \<and> makeHandler (viewHandler spec_templates) \<lparr>URL_Path = ''/view/Home/x'', Form = []\<rparr>
         \<lparr>nodes = [(''data'', Directory), (''data/Home.txt'', RegularFile ''x'')], calls = []\<rparr>
     = (\<lparr>nodes = [(''data'', Directory), (''data/Home.txt'', RegularFile ''x'')], calls = []\<rparr>,
        http_NotFound)"
proof -
  have a: "\<not> (\<exists>kw n. kw \<in> {''view'', ''edit'', ''save''} \<and> is_page_name n
              \<and> URL_Path \<lparr>URL_Path = ''/view/../etc'', Form = []\<rparr> = ''/'' @ kw @ ''/'' @ n)"
    by (auto simp: is_page_name_def letters_and_digits_def)
  have b: "\<not> (\<exists>kw n. kw \<in> {''view'', ''edit'', ''save''} \<and> is_page_name n
              \<and> URL_Path \<lparr>URL_Path = ''/delete/Home'', Form = [(''body'', [''x''])]\<rparr>
                  = ''/'' @ kw @ ''/'' @ n)"
    by auto
  have c: "\<not> (\<exists>kw n. kw \<in> {''view'', ''edit'', ''save''} \<and> is_page_name n
              \<and> URL_Path \<lparr>URL_Path = ''/edit/'', Form = []\<rparr> = ''/'' @ kw @ ''/'' @ n)"
    by (auto simp: is_page_name_def)
  have d: "\<not> (\<exists>kw n. kw \<in> {''view'', ''edit'', ''save''} \<and> is_page_name n
              \<and> URL_Path \<lparr>URL_Path = ''/view/Home/x'', Form = []\<rparr> = ''/'' @ kw @ ''/'' @ n)"
    by (auto simp: is_page_name_def letters_and_digits_def)
  show ?thesis
    by (intro conjI invalid_route_not_found [OF a] invalid_route_not_found [OF b]
          invalid_route_not_found [OF c] invalid_route_not_found [OF d])
qed

section \<open>The page store\<close>

lemma slash_not_alnum: "CHR ''/'' \<notin> set letters_and_digits"
  by (simp add: letters_and_digits_def)

lemma page_name_no_slash: "is_page_name n \<Longrightarrow> CHR ''/'' \<notin> set (n @ ''.txt'')"
proof -
  assume "is_page_name n"
  then have "\<forall>c\<in>set n. c \<in> set letters_and_digits"
    by (simp add: is_page_name_def list_all_iff)
  with slash_not_alnum have "CHR ''/'' \<notin> set n" by blast
  then show ?thesis by simp
qed

lemma filepath_Dir_Join: "CHR ''/'' \<notin> set file \<Longrightarrow> filepath_Dir (filepath_Join dir file) = dir"
proof -
  assume "CHR ''/'' \<notin> set file"
  then have "\<And>x. x \<in> set (rev file) \<Longrightarrow> x \<noteq> CHR ''/''" by auto
  from dropWhile_append2 [of "rev file" "\<lambda>c. c \<noteq> CHR ''/''", OF this]
  show ?thesis by (simp add: filepath_Dir_def filepath_Join_def)
qed

lemma filepath_Base_Join: "CHR ''/'' \<notin> set file \<Longrightarrow> filepath_Base (filepath_Join dir file) = file"
proof -
  assume "CHR ''/'' \<notin> set file"
  then have "\<And>x. x \<in> set (rev file) \<Longrightarrow> x \<noteq> CHR ''/''" by auto
  from takeWhile_append2 [of "rev file" "\<lambda>c. c \<noteq> CHR ''/''", OF this]
  show ?thesis by (simp add: filepath_Base_def filepath_Join_def)
qed

lemma lookup_calls [simp]: "lookup (fs\<lparr>calls := cs\<rparr>) k = lookup fs k"
  by (simp add: lookup_def)

lemma page_file_Dir: "is_page_name n \<Longrightarrow> filepath_Dir (page_file n) = savePath"
  unfolding page_file_def by (rule filepath_Dir_Join) (rule page_name_no_slash)

lemma page_file_Base: "is_page_name n \<Longrightarrow> filepath_Base (page_file n) = n @ ''.txt''"
  unfolding page_file_def by (rule filepath_Base_Join) (rule page_name_no_slash)

lemma page_file_open_errno:
  assumes "is_page_name n"
  shows "open_errno fs (page_file n) =
     (case lookup fs savePath of
        None \<Rightarrow> Some ENOENT
      | Some (RegularFile _) \<Rightarrow> Some ENOTDIR
      | Some Directory \<Rightarrow>
          if NAME_MAX < length (n @ ''.txt'') then Some ENAMETOOLONG else None)"
  unfolding open_errno_def page_file_Dir [OF assms] page_file_Base [OF assms] ..

lemma save_ok:
  assumes "is_page_name (Title p)"
    and "lookup fs savePath = Some Directory"
    and "length (Title p @ ''.txt'') \<le> NAME_MAX"
    and "lookup fs (page_file (Title p)) \<noteq> Some Directory"
  shows "save p fs =
     (fs\<lparr>calls := calls fs @ [SysWriteFile (page_file (Title p)) (Body p) 384],
         nodes := AList.update (page_file (Title p)) (RegularFile (Body p)) (nodes fs)\<rparr>, None)"
proof -
  have o: "open_errno fs (page_file (Title p)) = None"
    using assms(2,3) by (simp add: page_file_open_errno [OF assms(1)])
  have "save p fs = os_WriteFile (page_file (Title p)) (Body p) 384 fs"
    by (simp add: save_def page_file_def)
  also have "\<dots> = (fs\<lparr>calls := calls fs @ [SysWriteFile (page_file (Title p)) (Body p) 384],
         nodes := AList.update (page_file (Title p)) (RegularFile (Body p)) (nodes fs)\<rparr>, None)"
    using assms(4) unfolding os_WriteFile_def o
    by (cases "lookup fs (page_file (Title p))") (simp_all add: Let_def split: node.splits)
  finally show ?thesis .
qed

lemma save_fails:
  assumes "is_page_name (Title p)"
    and "\<not> (lookup fs savePath = Some Directory
            \<and> length (Title p @ ''.txt'') \<le> NAME_MAX
            \<and> lookup fs (page_file (Title p)) \<noteq> Some Directory)"
  shows "\<exists>e. save p fs =
     (fs\<lparr>calls := calls fs @ [SysWriteFile (page_file (Title p)) (Body p) 384]\<rparr>, Some e)"
proof -
  have s: "save p fs = os_WriteFile (page_file (Title p)) (Body p) 384 fs"
    by (simp add: save_def page_file_def)
  show ?thesis
  proof (cases "open_errno fs (page_file (Title p))")
    case (Some e)
    then show ?thesis
      unfolding s os_WriteFile_def by (simp add: Let_def)
  next
    case None
    then have "lookup fs savePath = Some Directory \<and> length (Title p @ ''.txt'') \<le> NAME_MAX"
      unfolding page_file_open_errno [OF assms(1)]
      by (simp split: option.splits node.splits if_splits)
    with assms(2) have "lookup fs (page_file (Title p)) = Some Directory" by blast
    then show ?thesis
      unfolding s os_WriteFile_def None by (simp add: Let_def)
  qed
qed

lemma save_name_too_long:
  assumes "is_page_name n" and "lookup fs savePath = Some Directory"
    and "NAME_MAX < length (n @ ''.txt'')"
  shows "save \<lparr>Title = n, Body = c\<rparr> fs =
     (fs\<lparr>calls := calls fs @ [SysWriteFile (page_file n) c 384]\<rparr>,
      Some (PathError ''open'' (page_file n) ENAMETOOLONG))"
proof -
  have "open_errno fs (page_file n) = Some ENAMETOOLONG"
    using assms(2,3) by (simp add: page_file_open_errno [OF assms(1)])
  then show ?thesis
    by (simp add: save_def page_file_def [symmetric] os_WriteFile_def Let_def)
qed

lemma loadPage_cases:
  "loadPage n fs =
     (fs\<lparr>calls := calls fs @ [SysReadFile (page_file n)]\<rparr>,
      case lookup fs (page_file n) of
        None \<Rightarrow> Inl (PathError ''open'' (page_file n)
                      (case open_errno fs (page_file n) of Some e \<Rightarrow> e | None \<Rightarrow> ENOENT))
      | Some Directory \<Rightarrow> Inl (PathError ''read'' (page_file n) EISDIR)
      | Some (RegularFile c) \<Rightarrow> Inr \<lparr>Title = n, Body = c\<rparr>)"
  by (simp add: loadPage_def os_ReadFile_def page_file_def Let_def
           split: option.splits node.splits)

lemma save_result:
  assumes "is_page_name n" and "save \<lparr>Title = n, Body = c\<rparr> fs = (fs', res)"
  shows "calls fs' = calls fs @ [SysWriteFile (page_file n) c 384]
       \<and> (res = None \<longrightarrow> nodes fs' = AList.update (page_file n) (RegularFile c) (nodes fs))
       \<and> (res \<noteq> None \<longrightarrow> nodes fs' = nodes fs)
       \<and> (res = None \<longleftrightarrow>
            lookup fs savePath = Some Directory \<and> length (n @ ''.txt'') \<le> NAME_MAX
            \<and> lookup fs (page_file n) \<noteq> Some Directory)"
proof -
  let ?p = "\<lparr>Title = n, Body = c\<rparr>"
  have n: "is_page_name (Title ?p)" using assms(1) by simp
  show ?thesis
  proof (cases "lookup fs savePath = Some Directory \<and> length (n @ ''.txt'') \<le> NAME_MAX
                \<and> lookup fs (page_file n) \<noteq> Some Directory")
    case True
    with save_ok [OF n, of fs] assms(2) show ?thesis by auto
  next
    case False
    with save_fails [OF n, of fs] assms(2) show ?thesis by auto
  qed
qed

lemma lookup_after_update:
  "nodes fs' = AList.update k v (nodes fs) \<Longrightarrow> lookup fs' k' = (if k' = k then Some v else lookup fs k')"
  by (simp add: lookup_def update_conv')

lemma page_file_eq: "page_file n = savePath @ ''/'' @ n @ ''.txt''"
  by (simp add: page_file_def filepath_Join_def)

text \<open>
  C1. When \<open>save\<close> of a page with a valid name \<open>n\<close> and content \<open>c\<close> succeeds,
  \<open>loadPage n\<close> on the resulting file system returns the page with exactly the content
  \<open>c\<close>, the record is the regular file \<open>n\<close> plus \<open>.txt\<close> in the data directory, and loading
  changes no file.
\<close>

theorem save_then_load:
  assumes "is_page_name n"
    and "save \<lparr>Title = n, Body = c\<rparr> fs = (fs', None)"
  shows "snd (loadPage n fs') = Inr \<lparr>Title = n, Body = c\<rparr>
       \<and> lookup fs' (savePath @ ''/'' @ n @ ''.txt'') = Some (RegularFile c)
       \<and> nodes (fst (loadPage n fs')) = nodes fs'"
proof -
  have "nodes fs' = AList.update (page_file n) (RegularFile c) (nodes fs)"
    using save_result [OF assms] by simp
  then have l: "lookup fs' (page_file n) = Some (RegularFile c)"
    by (simp add: lookup_after_update)
  then have "snd (loadPage n fs') = Inr \<lparr>Title = n, Body = c\<rparr>"
    and "nodes (fst (loadPage n fs')) = nodes fs'"
    by (simp_all add: loadPage_cases)
  with l show ?thesis
    unfolding page_file_eq by simp
qed

theorem save_then_load_witness:
  "is_page_name ''Alpha''
   \<and> save \<lparr>Title = ''Alpha'', Body = ''hello''\<rparr>
        \<lparr>nodes = [(''data'', Directory), (''data/Alpha.txt'', RegularFile ''old'')], calls = []\<rparr>
     = (\<lparr>nodes = [(''data'', Directory), (''data/Alpha.txt'', RegularFile ''hello'')],
         calls = [SysWriteFile ''data/Alpha.txt'' ''hello'' 384]\<rparr>, None)
   \<and> snd (loadPage ''Alpha''
        \<lparr>nodes = [(''data'', Directory), (''data/Alpha.txt'', RegularFile ''hello'')],
         calls = [SysWriteFile ''data/Alpha.txt'' ''hello'' 384]\<rparr>)
     = Inr \<lparr>Title = ''Alpha'', Body = ''hello''\<rparr>"
proof -
  have n: "is_page_name ''Alpha''"
    by (simp add: is_page_name_def letters_and_digits_def)
  have s: "save \<lparr>Title = ''Alpha'', Body = ''hello''\<rparr>
        \<lparr>nodes = [(''data'', Directory), (''data/Alpha.txt'', RegularFile ''old'')], calls = []\<rparr>
     = (\<lparr>nodes = [(''data'', Directory), (''data/Alpha.txt'', RegularFile ''hello'')],
         calls = [SysWriteFile ''data/Alpha.txt'' ''hello'' 384]\<rparr>, None)"
    by (simp add: save_def os_WriteFile_def open_errno_def NAME_MAX_def filepath_Join_def
          filepath_Dir_def filepath_Base_def savePath_def lookup_def Let_def)
  from save_then_load [OF n s] n s show ?thesis by simp
qed

section \<open>The link transform\<close>

lemma bracket_not_alnum: "\<not> in_class alnum (CHR '']'')" "\<not> in_class alnum (CHR ''['')"
  by (simp_all add: in_class_alnum letters_and_digits_def)

lemma takeWhile_nth_holds: "k < length (takeWhile P xs) \<Longrightarrow> P (xs ! k)"
  by (metis nth_mem set_takeWhileD takeWhile_nth)

lemma take1_drop: "k < length xs \<Longrightarrow> take 1 (drop k xs) = [xs ! k]"
  by (simp add: take_Suc_conv_app_nth)

lemma name_then_close_run:
  "run (OpConcat (OpCapture i (OpPlus (OpCharClass alnum))) (OpLiteral '']'')) st =
     (let n = takeWhile (in_class alnum) (rest st)
      in if n \<noteq> [] \<and> take 1 (drop (length n) (rest st)) = '']''
         then [st\<lparr>pos := Suc (pos st + length n), rest := drop (Suc (length n)) (rest st),
                  caps := (caps st)(i \<mapsto> n)\<rparr>]
         else [])"
proof -
  let ?n = "takeWhile (in_class alnum) (rest st)"
  let ?m = "length ?n"
  let ?f = "\<lambda>k. run (OpLiteral '']'')
               (st\<lparr>pos := pos st + k, rest := drop k (rest st),
                   caps := (caps st)(i \<mapsto> take k (rest st))\<rparr>)"
  have le: "?m \<le> length (rest st)" by (rule length_takeWhile_le)
  have none: "?f k = []" if "1 \<le> k" "k < ?m" for k
  proof -
    have "in_class alnum (rest st ! k)" using that(2) by (rule takeWhile_nth_holds)
    then have "rest st ! k \<noteq> CHR '']''" using bracket_not_alnum(1) by auto
    moreover have "take 1 (drop k (rest st)) = [rest st ! k]"
      using that(2) le by (intro take1_drop) simp
    ultimately show ?thesis by simp
  qed
  have tk: "take ?m (rest st) = ?n" by (rule takeWhile_eq_take [symmetric])
  have "run (OpConcat (OpCapture i (OpPlus (OpCharClass alnum))) (OpLiteral '']'')) st
        = concat (map ?f (rev [1..<Suc ?m]))"
    by (simp add: run_plus_class comp_def del: upt_Suc)
  also have "\<dots> = (if ?m = 0 then [] else ?f ?m)"
    using none by (intro concat_rev_upt_last) simp
  also have "\<dots> = (let n = ?n
      in if n \<noteq> [] \<and> take 1 (drop (length n) (rest st)) = '']''
         then [st\<lparr>pos := Suc (pos st + length n), rest := drop (Suc (length n)) (rest st),
                  caps := (caps st)(i \<mapsto> n)\<rparr>]
         else [])"
    by (simp add: tk Let_def)
  finally show ?thesis .
qed

lemma link_re_run:
  "run link_re \<lparr>pos = p, rest = s, caps = g\<rparr> =
     (case link_at s of
        None \<Rightarrow> []
      | Some (n, r) \<Rightarrow> [\<lparr>pos = p + length n + 2, rest = r, caps = g(1 \<mapsto> n)\<rparr>])"
proof -
  define tl where "tl = OpConcat (OpCapture 1 (OpPlus (OpCharClass alnum))) (OpLiteral '']'')"
  have tl: "run tl st =
     (let n = takeWhile (in_class alnum) (rest st)
      in if n \<noteq> [] \<and> take 1 (drop (length n) (rest st)) = '']''
         then [st\<lparr>pos := Suc (pos st + length n), rest := drop (Suc (length n)) (rest st),
                  caps := (caps st)(1 \<mapsto> n)\<rparr>]
         else [])" for st
    unfolding tl_def by (rule name_then_close_run)
  have eq: "link_re = OpConcat (OpLiteral ''['') tl"
    by (simp add: link_re_def tl_def)
  show ?thesis
    unfolding eq by (simp add: tl link_at_def Let_def)
qed

lemma link_at_SomeD:
  assumes "link_at s = Some (n, r)"
  shows "s = ''['' @ n @ '']'' @ r" and "n \<noteq> []" and "n = takeWhile (in_class alnum) (drop 1 s)"
proof -
  define s' where "s' = drop 1 s"
  from assms have h: "take 1 s = ''[''" "n = takeWhile (in_class alnum) s'" "n \<noteq> []"
      "take 1 (drop (Suc (length n)) s) = '']''" "r = drop (length n + 2) s"
    by (auto simp: link_at_def Let_def s'_def split: if_splits)
  show "n \<noteq> []" by fact
  show "n = takeWhile (in_class alnum) (drop 1 s)" using h(2) by (simp add: s'_def)
  have "s = take 1 s @ s'"
    unfolding s'_def by (rule append_take_drop_id [symmetric])
  then have 1: "s = ''['' @ s'"
    unfolding h(1) .
  have 3: "take (length n) s' = n"
    using h(2) takeWhile_eq_take [of "in_class alnum" s'] by simp
  have d: "drop (Suc (length n)) s = drop (length n) s'"
    by (subst 1) simp
  have d2: "drop (length n + 2) s = drop (Suc (length n)) s'"
    by (subst 1) simp
  have 5: "take 1 (drop (length n) s') = '']''" using h(4) d by simp
  have "s' = take (length n) s' @ drop (length n) s'" by simp
  also have "drop (length n) s' = take 1 (drop (length n) s') @ drop 1 (drop (length n) s')"
    by (rule append_take_drop_id [symmetric])
  also have "drop 1 (drop (length n) s') = r" using h(5) d2 by simp
  finally have "s' = n @ '']'' @ r" unfolding 3 5 .
  with 1 show "s = ''['' @ n @ '']'' @ r" by simp
qed

lemma replaceAll_link:
  "replaceAll link_re repl a p s =
     (case link_at s of
        Some (n, r) \<Rightarrow> repl (''['' @ n @ '']'') @ replaceAll link_re repl True (p + (length n + 2)) r
      | None \<Rightarrow> (case s of [] \<Rightarrow> [] | c # cs \<Rightarrow> c # replaceAll link_re repl False (Suc p) cs))"
proof (cases "link_at s")
  case None
  then show ?thesis
    by (subst replaceAll.simps) (simp add: link_re_run)
next
  case (Some nr)
  obtain n r where nr: "nr = (n, r)" by (cases nr)
  have s: "s = ''['' @ n @ '']'' @ r" using link_at_SomeD(1) Some nr by simp
  have len: "length s = length n + 2 + length r" by (subst s) simp
  have tk: "take (Suc (Suc (length n))) s = ''['' @ n @ '']''" by (subst s) simp
  show ?thesis
    by (subst replaceAll.simps) (simp add: link_re_run Some nr len tk)
qed

lemma replaceAll_link_indep:
  "replaceAll link_re repl a p s = replaceAll link_re repl False 0 s"
proof (induction s arbitrary: a p rule: length_induct)
  case (1 s)
  have ih: "replaceAll link_re repl a' p' t = replaceAll link_re repl False 0 t"
    if "length t < length s" for t a' p'
    using 1 that by blast
  show ?case
  proof (cases "link_at s")
    case None
    show ?thesis
    proof (cases s)
      case Nil
      show ?thesis
        unfolding replaceAll_link [of repl a p s] replaceAll_link [of repl False 0 s] None
        by (simp add: Nil)
    next
      case (Cons c cs)
      have "replaceAll link_re repl False (Suc p) cs = replaceAll link_re repl False (Suc 0) cs"
        using ih [of cs False "Suc p"] ih [of cs False "Suc 0"] Cons by simp
      then show ?thesis
        unfolding replaceAll_link [of repl a p s] replaceAll_link [of repl False 0 s] None
        by (simp add: Cons)
    qed
  next
    case (Some nr)
    obtain n r where nr: "nr = (n, r)" by (cases nr)
    have "s = ''['' @ n @ '']'' @ r" using link_at_SomeD(1) Some nr by simp
    from arg_cong [OF this, of length] have "length r < length s" by simp
    then have "replaceAll link_re repl True (p + (length n + 2)) r
             = replaceAll link_re repl True (0 + (length n + 2)) r"
      using ih [of r True "p + (length n + 2)"] ih [of r True "0 + (length n + 2)"] by simp
    then show ?thesis
      unfolding replaceAll_link [of repl a p s] replaceAll_link [of repl False 0 s] Some nr
      by simp
  qed
qed

lemma processLinks_unfold:
  "processLinks s =
     (case link_at s of
        Some (n, r) \<Rightarrow> anchor n @ processLinks r
      | None \<Rightarrow> (case s of [] \<Rightarrow> [] | c # cs \<Rightarrow> c # processLinks cs))"
proof -
  let ?f = "\<lambda>match. let pageName = take (length match - 1 - 1) (drop 1 match)
              in ''<a href=\"/view/'' @ pageName @ ''\">'' @ pageName @ ''</a>''"
  have pl: "processLinks t = replaceAll link_re ?f False 0 t" for t
    by (simp add: processLinks_def ReplaceAllStringFunc_def)
  have a: "?f (''['' @ n @ '']'') = anchor n" for n
    by (simp add: anchor_def)
  show ?thesis
    unfolding pl replaceAll_link [of ?f False 0 s]
    by (simp only: a replaceAll_link_indep [of ?f True] replaceAll_link_indep [of ?f False "Suc 0"])
qed

lemma takeWhile_proper:
  assumes "x \<in> set xs" and "\<not> P x"
  shows "length (takeWhile P xs) < length xs"
proof -
  have "takeWhile P xs \<noteq> xs" using assms set_takeWhileD [of x P xs] by auto
  then have "length (takeWhile P xs) \<noteq> length xs"
    using takeWhile_eq_take [of P xs] by auto
  then show ?thesis using length_takeWhile_le [of P xs] by simp
qed

lemma take1_drop': "k < length xs \<Longrightarrow> take (Suc 0) (drop k xs) = [xs ! k]"
  using take1_drop by simp

lemma link_at_other: "take 1 s \<noteq> ''['' \<Longrightarrow> link_at s = None"
  by (simp add: link_at_def Let_def)

lemma processLinks_Nil: "processLinks [] = []"
  by (subst processLinks_unfold) (simp add: link_at_other)

lemma processLinks_Cons_other: "c \<noteq> CHR ''['' \<Longrightarrow> processLinks (c # cs) = c # processLinks cs"
  by (subst processLinks_unfold) (simp add: link_at_other)

lemma processLinks_plain:
  "CHR ''['' \<notin> set t \<Longrightarrow> processLinks (t @ post) = t @ processLinks post"
proof (induction t)
  case Nil
  show ?case by simp
next
  case (Cons c t)
  then have "c \<noteq> CHR ''[''" and "processLinks (t @ post) = t @ processLinks post" by auto
  then show ?case by (simp add: processLinks_Cons_other)
qed

lemma link_at_needs_close: "CHR '']'' \<notin> set s \<Longrightarrow> link_at s = None"
proof (rule ccontr)
  assume a: "CHR '']'' \<notin> set s" and "link_at s \<noteq> None"
  then obtain n r where "link_at s = Some (n, r)" by auto
  from link_at_SomeD(1) [OF this] have "s = (''['' @ n) @ CHR '']'' # r" by simp
  then have "CHR '']'' \<in> set s" by (metis in_set_conv_decomp)
  with a show False by simp
qed

lemma processLinks_no_close: "CHR '']'' \<notin> set t \<Longrightarrow> processLinks t = t"
proof (induction t)
  case Nil
  show ?case by (rule processLinks_Nil)
next
  case (Cons c cs)
  have "link_at (c # cs) = None" using Cons.prems by (rule link_at_needs_close)
  then have "processLinks (c # cs) = c # processLinks cs"
    by (subst processLinks_unfold) simp
  then show ?case using Cons by simp
qed

lemma page_name_alnum: "is_page_name n \<Longrightarrow> x \<in> set n \<Longrightarrow> in_class alnum x"
  by (simp add: is_page_name_def list_all_iff in_class_alnum)

lemma link_at_marker:
  assumes "is_page_name n"
  shows "link_at (''['' @ n @ '']'' @ post) = Some (n, post)"
proof -
  have "takeWhile (in_class alnum) (n @ '']'' @ post) = n @ takeWhile (in_class alnum) ('']'' @ post)"
    using page_name_alnum [OF assms] by (intro takeWhile_append2) simp
  then have tw: "takeWhile (in_class alnum) (n @ CHR '']'' # post) = n"
    by (simp add: bracket_not_alnum)
  have "n \<noteq> []" using assms by (simp add: is_page_name_def)
  then show ?thesis
    by (simp add: link_at_def Let_def tw)
qed

lemma link_at_malformed:
  assumes "\<not> is_page_name m" and "CHR '']'' \<notin> set m"
  shows "link_at (''['' @ m @ '']'' @ post) = None"
proof (cases "\<forall>x\<in>set m. in_class alnum x")
  case True
  then have "list_all (\<lambda>c. c \<in> set letters_and_digits) m"
    by (simp add: list_all_iff in_class_alnum)
  with assms(1) have "m = []" by (simp add: is_page_name_def)
  then show ?thesis by (simp add: link_at_def Let_def bracket_not_alnum)
next
  case False
  then obtain x where x: "x \<in> set m" "\<not> in_class alnum x" by blast
  let ?n = "takeWhile (in_class alnum) m"
  have tw: "takeWhile (in_class alnum) (m @ CHR '']'' # post) = ?n"
    using x by (rule takeWhile_append1)
  have lt: "length ?n < length m" using x by (rule takeWhile_proper)
  then have "m ! length ?n \<in> set m" by simp
  then have ne: "m ! length ?n \<noteq> CHR '']''" using assms(2) by auto
  have "take 1 (drop (length ?n) (m @ CHR '']'' # post)) = [m ! length ?n]"
    using lt by (simp add: take1_drop' nth_append)
  then show ?thesis
    using ne by (simp add: link_at_def Let_def tw)
qed

lemma link_at_Cons:
  "link_at (CHR ''['' # s) =
     (if takeWhile (in_class alnum) s \<noteq> []
         \<and> take 1 (drop (length (takeWhile (in_class alnum) s)) s) = '']''
      then Some (takeWhile (in_class alnum) s, drop (Suc (length (takeWhile (in_class alnum) s))) s)
      else None)"
  by (simp add: link_at_def Let_def)

lemma link_at_append:
  "link_at (c # pre @ CHR ''['' # post) =
     map_option (\<lambda>(n, r). (n, r @ CHR ''['' # post)) (link_at (c # pre))"
proof (cases "c = CHR ''[''")
  case False
  then show ?thesis by (simp add: link_at_other)
next
  case c: True
  show ?thesis
  proof (cases "\<forall>x\<in>set pre. in_class alnum x")
    case True
    then have "takeWhile (in_class alnum) (pre @ CHR ''['' # post)
             = pre @ takeWhile (in_class alnum) (CHR ''['' # post)"
      by (intro takeWhile_append2) simp
    then have 1: "takeWhile (in_class alnum) (pre @ CHR ''['' # post) = pre"
      by (simp add: bracket_not_alnum)
    have 2: "takeWhile (in_class alnum) pre = pre" using True by simp
    show ?thesis
      unfolding c link_at_Cons 1 2 by simp
  next
    case False
    then obtain x where x: "x \<in> set pre" "\<not> in_class alnum x" by blast
    let ?n = "takeWhile (in_class alnum) pre"
    have tw: "takeWhile (in_class alnum) (pre @ CHR ''['' # post) = ?n"
      using x by (rule takeWhile_append1)
    have lt: "length ?n < length pre" using x by (rule takeWhile_proper)
    have t: "take 1 (drop (length ?n) (pre @ CHR ''['' # post)) = take 1 (drop (length ?n) pre)"
      using lt by simp
    have d: "drop (Suc (length ?n)) (pre @ CHR ''['' # post)
           = drop (Suc (length ?n)) pre @ CHR ''['' # post"
      using lt by simp
    show ?thesis
      unfolding c link_at_Cons tw t d by simp
  qed
qed

lemma processLinks_compose:
  "processLinks (pre @ CHR ''['' # post) = processLinks pre @ processLinks (CHR ''['' # post)"
proof (induction pre rule: length_induct)
  case (1 pre)
  show ?case
  proof (cases pre)
    case Nil
    then show ?thesis by (simp add: processLinks_Nil)
  next
    case (Cons c cs)
    show ?thesis
    proof (cases "link_at (c # cs)")
      case None
      then have "link_at (c # cs @ CHR ''['' # post) = None"
        by (simp add: link_at_append)
      then have "processLinks (c # cs @ CHR ''['' # post) = c # processLinks (cs @ CHR ''['' # post)"
        by (subst processLinks_unfold) simp
      moreover have "processLinks (c # cs) = c # processLinks cs"
        using None by (subst processLinks_unfold) simp
      moreover have "processLinks (cs @ CHR ''['' # post) = processLinks cs @ processLinks (CHR ''['' # post)"
        using 1 Cons by simp
      ultimately show ?thesis using Cons by simp
    next
      case (Some nr)
      obtain n r where nr: "nr = (n, r)" by (cases nr)
      have l: "link_at (c # cs) = Some (n, r)" using Some nr by simp
      have "c # cs = ''['' @ n @ '']'' @ r" using link_at_SomeD(1) [OF l] .
      from arg_cong [OF this, of length] have "length r < length pre" using Cons by simp
      then have ih: "processLinks (r @ CHR ''['' # post) = processLinks r @ processLinks (CHR ''['' # post)"
        using 1 by blast
      have "link_at (c # cs @ CHR ''['' # post) = Some (n, r @ CHR ''['' # post)"
        using l by (simp add: link_at_append)
      then have "processLinks (c # cs @ CHR ''['' # post) = anchor n @ processLinks (r @ CHR ''['' # post)"
        by (subst processLinks_unfold) simp
      moreover have "processLinks (c # cs) = anchor n @ processLinks r"
        using l by (subst processLinks_unfold) simp
      ultimately show ?thesis using Cons ih by simp
    qed
  qed
qed

lemma processLinks_marker:
  assumes "is_page_name n"
  shows "processLinks (pre @ ''['' @ n @ '']'' @ post) = processLinks pre @ anchor n @ processLinks post"
proof -
  have "processLinks (''['' @ n @ '']'' @ post) = anchor n @ processLinks post"
    unfolding processLinks_unfold [of "''['' @ n @ '']'' @ post"] link_at_marker [OF assms]
    by simp
  then show ?thesis
    using processLinks_compose [of pre "n @ '']'' @ post"] by simp
qed

lemma processLinks_malformed:
  assumes "\<not> is_page_name m" and "CHR ''['' \<notin> set m" and "CHR '']'' \<notin> set m"
  shows "processLinks (pre @ ''['' @ m @ '']'' @ post) = processLinks pre @ ''['' @ m @ '']'' @ processLinks post"
proof -
  have "link_at (''['' @ m @ '']'' @ post) = None"
    using assms(1,3) by (rule link_at_malformed)
  then have "processLinks (''['' @ m @ '']'' @ post) = CHR ''['' # processLinks (m @ '']'' @ post)"
    unfolding processLinks_unfold [of "''['' @ m @ '']'' @ post"] by simp
  also have "processLinks (m @ '']'' @ post) = (m @ '']'') @ processLinks post"
    using processLinks_plain [of "m @ '']''" post] assms(2) by simp
  finally show ?thesis
    using processLinks_compose [of pre "m @ '']'' @ post"] by simp
qed

text \<open>
  C2. Every marker, an opening bracket, a page name and a closing bracket, is replaced
  by the anchor to the view path of the name with the name as its label, wherever it
  stands: the text before it and the text behind it are transformed on their own. A
  bracket pair around a text without brackets that is not a page name (empty, or with a
  character that is no letter or digit) stays as it is. Text without an opening bracket is
  copied, and so is a text without a closing bracket.
\<close>

theorem link_transform:
  "(is_page_name n \<longrightarrow>
      processLinks (pre @ ''['' @ n @ '']'' @ post)
        = processLinks pre @ ''<a href=\"/view/'' @ n @ ''\">'' @ n @ ''</a>'' @ processLinks post)
   \<and> (\<not> is_page_name m \<and> CHR ''['' \<notin> set m \<and> CHR '']'' \<notin> set m \<longrightarrow>
      processLinks (pre @ ''['' @ m @ '']'' @ post)
        = processLinks pre @ ''['' @ m @ '']'' @ processLinks post)
   \<and> (CHR ''['' \<notin> set t \<longrightarrow> processLinks (t @ post) = t @ processLinks post)
   \<and> (CHR '']'' \<notin> set t \<longrightarrow> processLinks t = t)"
proof (intro conjI impI)
  assume "is_page_name n"
  then show "processLinks (pre @ ''['' @ n @ '']'' @ post)
        = processLinks pre @ ''<a href=\"/view/'' @ n @ ''\">'' @ n @ ''</a>'' @ processLinks post"
    by (simp only: processLinks_marker anchor_def append_assoc)
next
  assume "\<not> is_page_name m \<and> CHR ''['' \<notin> set m \<and> CHR '']'' \<notin> set m"
  then show "processLinks (pre @ ''['' @ m @ '']'' @ post)
        = processLinks pre @ ''['' @ m @ '']'' @ processLinks post"
    by (intro processLinks_malformed) simp_all
next
  assume "CHR ''['' \<notin> set t"
  then show "processLinks (t @ post) = t @ processLinks post" by (rule processLinks_plain)
next
  assume "CHR '']'' \<notin> set t"
  then show "processLinks t = t" by (rule processLinks_no_close)
qed

theorem link_transform_witness:
  "processLinks ''See [Home] and [Foo2] here''
     = ''See <a href=\"/view/Home\">Home</a> and <a href=\"/view/Foo2\">Foo2</a> here''
   \<and> processLinks ''[not valid]'' = ''[not valid]''
   \<and> processLinks ''[]'' = ''[]''"
proof -
  have n1: "is_page_name ''Home''" and n2: "is_page_name ''Foo2''"
    and m1: "\<not> is_page_name ''not valid'' \<and> CHR ''['' \<notin> set ''not valid''
             \<and> CHR '']'' \<notin> set ''not valid''"
    and m2: "\<not> is_page_name [] \<and> CHR ''['' \<notin> set [] \<and> CHR '']'' \<notin> set []"
    by (simp_all add: is_page_name_def letters_and_digits_def)
  have a: "processLinks (''See '' @ ''['' @ ''Home'' @ '']'' @ '' and [Foo2] here'')
        = processLinks ''See '' @ ''<a href=\"/view/'' @ ''Home'' @ ''\">'' @ ''Home'' @ ''</a>''
          @ processLinks '' and [Foo2] here''"
    by (rule link_transform [THEN conjunct1, THEN mp, OF n1])
  have b: "processLinks ('' and '' @ ''['' @ ''Foo2'' @ '']'' @ '' here'')
        = processLinks '' and '' @ ''<a href=\"/view/'' @ ''Foo2'' @ ''\">'' @ ''Foo2'' @ ''</a>''
          @ processLinks '' here''"
    by (rule link_transform [THEN conjunct1, THEN mp, OF n2])
  have c1: "processLinks ''See '' = ''See ''"
    by (rule link_transform [THEN conjunct2, THEN conjunct2, THEN conjunct2, THEN mp]) simp
  have c2: "processLinks '' and '' = '' and ''"
    by (rule link_transform [THEN conjunct2, THEN conjunct2, THEN conjunct2, THEN mp]) simp
  have c3: "processLinks '' here'' = '' here''"
    by (rule link_transform [THEN conjunct2, THEN conjunct2, THEN conjunct2, THEN mp]) simp
  have c4: "processLinks [] = []"
    by (rule link_transform [THEN conjunct2, THEN conjunct2, THEN conjunct2, THEN mp]) simp
  have d: "processLinks ([] @ ''['' @ ''not valid'' @ '']'' @ [])
         = processLinks [] @ ''['' @ ''not valid'' @ '']'' @ processLinks []"
    by (rule link_transform [THEN conjunct2, THEN conjunct1, THEN mp, OF m1])
  have e: "processLinks ([] @ ''['' @ [] @ '']'' @ [])
         = processLinks [] @ ''['' @ [] @ '']'' @ processLinks []"
    by (rule link_transform [THEN conjunct2, THEN conjunct1, THEN mp, OF m2])
  have b': "processLinks '' and [Foo2] here''
        = '' and '' @ ''<a href=\"/view/'' @ ''Foo2'' @ ''\">'' @ ''Foo2'' @ ''</a>'' @ '' here''"
    using b unfolding c2 c3 by simp
  have "processLinks ''See [Home] and [Foo2] here''
     = ''See <a href=\"/view/Home\">Home</a> and <a href=\"/view/Foo2\">Foo2</a> here''"
    using a unfolding b' c1 by simp
  moreover have "processLinks ''[not valid]'' = ''[not valid]''"
    using d unfolding c4 by simp
  moreover have "processLinks ''[]'' = ''[]''"
    using e unfolding c4 by simp
  ultimately show ?thesis by simp
qed


section \<open>The handlers\<close>

lemma page_file_data: "page_file n = ''data/'' @ n @ ''.txt''"
  by (simp add: page_file_def filepath_Join_def savePath_def)

lemma is_page_name_examples:
  "is_page_name ''NoSuchPage''" "is_page_name ''Alpha''" "is_page_name ''Home''"
  by (simp_all add: is_page_name_def letters_and_digits_def)


text \<open>
  C5. For a valid name without a record, \<open>viewHandler\<close> reads the record's path once,
  changes no file and answers with a redirect (302) to the edit path of that name. When
  the record is a regular file, it executes the view template with the page's name and
  its stored body; the view template the specification describes shows the name and
  the link-transformed body: a marker with a valid name in the stored body is shown as
  the anchor to the view path of that name, and a body without an opening bracket is
  shown as it is stored.
\<close>

theorem view_handler_outcomes:
  assumes "is_page_name n"
  shows "(lookup fs (page_file n) = None \<longrightarrow>
            viewHandler templates r n fs
              = (fs\<lparr>calls := calls fs @ [SysReadFile (page_file n)]\<rparr>,
                 Redirect (''/edit/'' @ n) StatusFound))
       \<and> (lookup fs (page_file n) = Some (RegularFile c) \<longrightarrow>
            viewHandler templates r n fs
              = (fs\<lparr>calls := calls fs @ [SysReadFile (page_file n)]\<rparr>,
                 renderTemplate templates ''view'' \<lparr>Title = n, Body = c\<rparr>)
          \<and> viewHandler spec_templates r n fs
              = (fs\<lparr>calls := calls fs @ [SysReadFile (page_file n)]\<rparr>,
                 Written (ViewPresentation n (processLinks c))))
       \<and> (is_page_name m
            \<and> lookup fs (page_file n) = Some (RegularFile (pre @ ''['' @ m @ '']'' @ post)) \<longrightarrow>
            viewHandler spec_templates r n fs
              = (fs\<lparr>calls := calls fs @ [SysReadFile (page_file n)]\<rparr>,
                 Written (ViewPresentation n
                   (processLinks pre @ ''<a href=\"/view/'' @ m @ ''\">'' @ m @ ''</a>''
                    @ processLinks post))))
       \<and> (CHR ''['' \<notin> set c \<and> lookup fs (page_file n) = Some (RegularFile c) \<longrightarrow>
            viewHandler spec_templates r n fs
              = (fs\<lparr>calls := calls fs @ [SysReadFile (page_file n)]\<rparr>,
                 Written (ViewPresentation n c)))"
proof (intro conjI impI)
  assume "lookup fs (page_file n) = None"
  then show "viewHandler templates r n fs
              = (fs\<lparr>calls := calls fs @ [SysReadFile (page_file n)]\<rparr>,
                 Redirect (''/edit/'' @ n) StatusFound)"
    by (simp add: viewHandler_def loadPage_cases)
next
  assume l: "lookup fs (page_file n) = Some (RegularFile c)"
  show "viewHandler templates r n fs
              = (fs\<lparr>calls := calls fs @ [SysReadFile (page_file n)]\<rparr>,
                 renderTemplate templates ''view'' \<lparr>Title = n, Body = c\<rparr>)"
    by (simp add: viewHandler_def loadPage_cases l)
  show "viewHandler spec_templates r n fs
              = (fs\<lparr>calls := calls fs @ [SysReadFile (page_file n)]\<rparr>,
                 Written (ViewPresentation n (processLinks c)))"
    by (simp add: viewHandler_def loadPage_cases l renderTemplate_def spec_templates_def)
next
  assume "is_page_name m
      \<and> lookup fs (page_file n) = Some (RegularFile (pre @ ''['' @ m @ '']'' @ post))"
  then have m: "is_page_name m"
    and l: "lookup fs (page_file n) = Some (RegularFile (pre @ ''['' @ m @ '']'' @ post))"
    by simp_all
  have p: "processLinks (pre @ ''['' @ m @ '']'' @ post)
         = processLinks pre @ ''<a href=\"/view/'' @ m @ ''\">'' @ m @ ''</a>'' @ processLinks post"
    by (simp only: processLinks_marker [OF m] anchor_def append_assoc)
  have "viewHandler spec_templates r n fs
      = (fs\<lparr>calls := calls fs @ [SysReadFile (page_file n)]\<rparr>,
         Written (ViewPresentation n (processLinks (pre @ ''['' @ m @ '']'' @ post))))"
    unfolding viewHandler_def loadPage_cases l
    by (simp add: renderTemplate_def spec_templates_def)
  then show "viewHandler spec_templates r n fs
              = (fs\<lparr>calls := calls fs @ [SysReadFile (page_file n)]\<rparr>,
                 Written (ViewPresentation n
                   (processLinks pre @ ''<a href=\"/view/'' @ m @ ''\">'' @ m @ ''</a>''
                    @ processLinks post)))"
    unfolding p .
next
  assume "CHR ''['' \<notin> set c \<and> lookup fs (page_file n) = Some (RegularFile c)"
  then have b: "CHR ''['' \<notin> set c" and l: "lookup fs (page_file n) = Some (RegularFile c)"
    by simp_all
  have "processLinks c = c"
    using processLinks_plain [OF b, of "[]"] by (simp add: processLinks_Nil)
  then show "viewHandler spec_templates r n fs
              = (fs\<lparr>calls := calls fs @ [SysReadFile (page_file n)]\<rparr>,
                 Written (ViewPresentation n c))"
    by (simp add: viewHandler_def loadPage_cases l renderTemplate_def spec_templates_def)
qed

theorem view_handler_outcomes_witness:
  "viewHandler spec_templates \<lparr>URL_Path = ''/view/NoSuchPage'', Form = []\<rparr> ''NoSuchPage''
       \<lparr>nodes = [(''data'', Directory)], calls = []\<rparr>
     = (\<lparr>nodes = [(''data'', Directory)], calls = [SysReadFile ''data/NoSuchPage.txt'']\<rparr>,
        Redirect ''/edit/NoSuchPage'' 302)
   \<and> viewHandler spec_templates \<lparr>URL_Path = ''/view/Home'', Form = []\<rparr> ''Home''
       \<lparr>nodes = [(''data'', Directory), (''data/Home.txt'', RegularFile ''See [Foo2]'')],
        calls = []\<rparr>
     = (\<lparr>nodes = [(''data'', Directory), (''data/Home.txt'', RegularFile ''See [Foo2]'')],
         calls = [SysReadFile ''data/Home.txt'']\<rparr>,
        Written (ViewPresentation ''Home'' ''See <a href=\"/view/Foo2\">Foo2</a>''))
   \<and> viewHandler spec_templates \<lparr>URL_Path = ''/view/Alpha'', Form = []\<rparr> ''Alpha''
       \<lparr>nodes = [(''data'', Directory), (''data/Alpha.txt'', RegularFile ''hello'')],
        calls = []\<rparr>
     = (\<lparr>nodes = [(''data'', Directory), (''data/Alpha.txt'', RegularFile ''hello'')],
         calls = [SysReadFile ''data/Alpha.txt'']\<rparr>,
        Written (ViewPresentation ''Alpha'' ''hello''))"
proof -
  let ?fs0 = "\<lparr>nodes = [(''data'', Directory)], calls = []\<rparr>"
  let ?fs1 = "\<lparr>nodes = [(''data'', Directory), (''data/Home.txt'', RegularFile ''See [Foo2]'')],
        calls = []\<rparr>"
  let ?fs2 = "\<lparr>nodes = [(''data'', Directory), (''data/Alpha.txt'', RegularFile ''hello'')],
        calls = []\<rparr>"
  have f: "is_page_name ''Foo2''"
    by (simp add: is_page_name_def letters_and_digits_def)
  have l0: "lookup ?fs0 (page_file ''NoSuchPage'') = None"
    by (simp add: lookup_def page_file_data)
  have l1: "is_page_name ''Foo2''
      \<and> lookup ?fs1 (page_file ''Home'') = Some (RegularFile (''See '' @ ''['' @ ''Foo2'' @ '']'' @ []))"
    using f by (simp add: lookup_def page_file_data)
  have l2: "CHR ''['' \<notin> set ''hello''
      \<and> lookup ?fs2 (page_file ''Alpha'') = Some (RegularFile ''hello'')"
    by (simp add: lookup_def page_file_data)
  have p: "processLinks ''See '' = ''See ''" "processLinks [] = []"
    using processLinks_plain [of "''See ''" "[]"] by (simp_all add: processLinks_Nil)
  have 0: "viewHandler spec_templates \<lparr>URL_Path = ''/view/NoSuchPage'', Form = []\<rparr>
        ''NoSuchPage'' ?fs0
      = (?fs0\<lparr>calls := calls ?fs0 @ [SysReadFile (page_file ''NoSuchPage'')]\<rparr>,
         Redirect (''/edit/'' @ ''NoSuchPage'') StatusFound)"
    by (rule view_handler_outcomes [OF is_page_name_examples(1), THEN conjunct1, THEN mp, OF l0])
  have 1: "viewHandler spec_templates \<lparr>URL_Path = ''/view/Home'', Form = []\<rparr> ''Home'' ?fs1
      = (?fs1\<lparr>calls := calls ?fs1 @ [SysReadFile (page_file ''Home'')]\<rparr>,
         Written (ViewPresentation ''Home''
           (processLinks ''See '' @ ''<a href=\"/view/'' @ ''Foo2'' @ ''\">'' @ ''Foo2'' @ ''</a>''
            @ processLinks [])))"
    by (rule view_handler_outcomes [OF is_page_name_examples(3), THEN conjunct2, THEN conjunct2,
          THEN conjunct1, THEN mp, OF l1])
  have 2: "viewHandler spec_templates \<lparr>URL_Path = ''/view/Alpha'', Form = []\<rparr> ''Alpha'' ?fs2
      = (?fs2\<lparr>calls := calls ?fs2 @ [SysReadFile (page_file ''Alpha'')]\<rparr>,
         Written (ViewPresentation ''Alpha'' ''hello''))"
    by (rule view_handler_outcomes [OF is_page_name_examples(2), THEN conjunct2, THEN conjunct2,
          THEN conjunct2, THEN mp, OF l2])
  from 0 1 [unfolded p] 2 show ?thesis
    by (simp add: page_file_data StatusFound_def)
qed

text \<open>
  C6. For a valid name without a record, \<open>editHandler\<close> executes the edit template with a
  page of that name and empty content; with the templates of the specification the
  answer is the edit presentation, not an error. When the record exists, the edit
  template receives the stored bytes as they are.
\<close>

theorem edit_handler_outcomes:
  assumes "is_page_name n"
  shows "(lookup fs (page_file n) = None \<longrightarrow>
            editHandler templates r n fs
              = (fs\<lparr>calls := calls fs @ [SysReadFile (page_file n)]\<rparr>,
                 renderTemplate templates ''edit'' \<lparr>Title = n, Body = []\<rparr>)
          \<and> editHandler spec_templates r n fs
              = (fs\<lparr>calls := calls fs @ [SysReadFile (page_file n)]\<rparr>,
                 Written (EditPresentation n [])))
       \<and> (lookup fs (page_file n) = Some (RegularFile c) \<longrightarrow>
            editHandler templates r n fs
              = (fs\<lparr>calls := calls fs @ [SysReadFile (page_file n)]\<rparr>,
                 renderTemplate templates ''edit'' \<lparr>Title = n, Body = c\<rparr>)
          \<and> editHandler spec_templates r n fs
              = (fs\<lparr>calls := calls fs @ [SysReadFile (page_file n)]\<rparr>,
                 Written (EditPresentation n c)))"
  by (simp add: editHandler_def loadPage_cases renderTemplate_def spec_templates_def)

theorem edit_handler_outcomes_witness:
  "editHandler spec_templates \<lparr>URL_Path = ''/edit/NoSuchPage'', Form = []\<rparr> ''NoSuchPage''
       \<lparr>nodes = [(''data'', Directory)], calls = []\<rparr>
     = (\<lparr>nodes = [(''data'', Directory)], calls = [SysReadFile ''data/NoSuchPage.txt'']\<rparr>,
        Written (EditPresentation ''NoSuchPage'' []))
   \<and> editHandler spec_templates \<lparr>URL_Path = ''/edit/Home'', Form = []\<rparr> ''Home''
       \<lparr>nodes = [(''data'', Directory), (''data/Home.txt'', RegularFile ''See [Foo2]'')],
        calls = []\<rparr>
     = (\<lparr>nodes = [(''data'', Directory), (''data/Home.txt'', RegularFile ''See [Foo2]'')],
         calls = [SysReadFile ''data/Home.txt'']\<rparr>,
        Written (EditPresentation ''Home'' ''See [Foo2]''))"
proof -
  let ?fs0 = "\<lparr>nodes = [(''data'', Directory)], calls = []\<rparr>"
  let ?fs1 = "\<lparr>nodes = [(''data'', Directory), (''data/Home.txt'', RegularFile ''See [Foo2]'')],
        calls = []\<rparr>"
  have l0: "lookup ?fs0 (page_file ''NoSuchPage'') = None"
    by (simp add: lookup_def page_file_data)
  have l1: "lookup ?fs1 (page_file ''Home'') = Some (RegularFile ''See [Foo2]'')"
    by (simp add: lookup_def page_file_data)
  from edit_handler_outcomes [OF is_page_name_examples(1), THEN conjunct1, THEN mp, OF l0,
      THEN conjunct2]
    edit_handler_outcomes [OF is_page_name_examples(3), THEN conjunct2, THEN mp, OF l1,
      THEN conjunct2]
  show ?thesis
    by (simp add: page_file_data)
qed

lemma saveHandler_cases:
  "saveHandler templates r n fs =
     (case save \<lparr>Title = n, Body = FormValue r ''body''\<rparr> fs of
        (fs', Some err) \<Rightarrow> (fs', HttpError (Error err) StatusInternalServerError)
      | (fs', None) \<Rightarrow> (fs', Redirect (''/view/'' @ n) StatusFound))"
  unfolding saveHandler_def Let_def ..


text \<open>
  C7. \<open>saveHandler\<close> puts the form value \<open>body\<close> under the name. When the put fails, the
  answer is a server error (500) with the error's message and no file has changed; when
  it succeeds, the answer is a redirect (302) to the view path of the name, the record
  holds the body, and a following \<open>viewHandler\<close> shows the link transform of the body,
  which is the body itself when the body has no opening bracket.
\<close>

theorem save_handler_outcomes:
  assumes "is_page_name n" and "FormValue r ''body'' = b"
  shows "(save \<lparr>Title = n, Body = b\<rparr> fs = (fs1, Some e) \<longrightarrow>
            saveHandler templates r n fs
              = (fs1, HttpError (Error e) StatusInternalServerError)
          \<and> nodes fs1 = nodes fs)
       \<and> (save \<lparr>Title = n, Body = b\<rparr> fs = (fs2, None) \<longrightarrow>
            saveHandler templates r n fs = (fs2, Redirect (''/view/'' @ n) StatusFound)
          \<and> lookup fs2 (page_file n) = Some (RegularFile b)
          \<and> snd (viewHandler spec_templates r' n fs2)
              = Written (ViewPresentation n (processLinks b)))
       \<and> (CHR ''['' \<notin> set b \<longrightarrow> processLinks b = b)"
proof (intro conjI impI)
  assume s: "save \<lparr>Title = n, Body = b\<rparr> fs = (fs1, Some e)"
  show "saveHandler templates r n fs = (fs1, HttpError (Error e) StatusInternalServerError)"
    by (simp add: saveHandler_cases assms(2) s)
  show "nodes fs1 = nodes fs"
    using save_result [OF assms(1) s] by simp
next
  assume s: "save \<lparr>Title = n, Body = b\<rparr> fs = (fs2, None)"
  show "saveHandler templates r n fs = (fs2, Redirect (''/view/'' @ n) StatusFound)"
    by (simp add: saveHandler_cases assms(2) s)
  have "nodes fs2 = AList.update (page_file n) (RegularFile b) (nodes fs)"
    using save_result [OF assms(1) s] by simp
  then show l: "lookup fs2 (page_file n) = Some (RegularFile b)"
    by (simp add: lookup_after_update)
  show "snd (viewHandler spec_templates r' n fs2) = Written (ViewPresentation n (processLinks b))"
    by (simp add: viewHandler_def loadPage_cases l renderTemplate_def spec_templates_def)
next
  assume "CHR ''['' \<notin> set b"
  then show "processLinks b = b"
    using processLinks_plain [of b "[]"] by (simp add: processLinks_Nil)
qed

theorem save_handler_outcomes_witness:
  "saveHandler spec_templates \<lparr>URL_Path = ''/save/Alpha'', Form = [(''body'', [''hello''])]\<rparr>
       ''Alpha'' \<lparr>nodes = [(''data'', Directory)], calls = []\<rparr>
     = (\<lparr>nodes = [(''data'', Directory), (''data/Alpha.txt'', RegularFile ''hello'')],
         calls = [SysWriteFile ''data/Alpha.txt'' ''hello'' 384]\<rparr>,
        Redirect ''/view/Alpha'' 302)
   \<and> snd (viewHandler spec_templates \<lparr>URL_Path = ''/view/Alpha'', Form = []\<rparr> ''Alpha''
       \<lparr>nodes = [(''data'', Directory), (''data/Alpha.txt'', RegularFile ''hello'')],
         calls = [SysWriteFile ''data/Alpha.txt'' ''hello'' 384]\<rparr>)
     = Written (ViewPresentation ''Alpha'' ''hello'')
   \<and> saveHandler spec_templates \<lparr>URL_Path = ''/save/Alpha'', Form = [(''body'', [''hello''])]\<rparr>
       ''Alpha'' \<lparr>nodes = [(''data'', Directory), (''data/Alpha.txt'', Directory)], calls = []\<rparr>
     = (\<lparr>nodes = [(''data'', Directory), (''data/Alpha.txt'', Directory)],
         calls = [SysWriteFile ''data/Alpha.txt'' ''hello'' 384]\<rparr>,
        HttpError ''open data/Alpha.txt: is a directory'' 500)"
proof -
  let ?r = "\<lparr>URL_Path = ''/save/Alpha'', Form = [(''body'', [''hello''])]\<rparr>"
  let ?fs0 = "\<lparr>nodes = [(''data'', Directory)], calls = []\<rparr>"
  let ?fs2 = "\<lparr>nodes = [(''data'', Directory), (''data/Alpha.txt'', RegularFile ''hello'')],
         calls = [SysWriteFile ''data/Alpha.txt'' ''hello'' 384]\<rparr>"
  let ?bad = "\<lparr>nodes = [(''data'', Directory), (''data/Alpha.txt'', Directory)], calls = []\<rparr>"
  let ?bad1 = "\<lparr>nodes = [(''data'', Directory), (''data/Alpha.txt'', Directory)],
         calls = [SysWriteFile ''data/Alpha.txt'' ''hello'' 384]\<rparr>"
  have b: "FormValue ?r ''body'' = ''hello''"
    by (simp add: FormValue_def)
  have ok: "save \<lparr>Title = ''Alpha'', Body = ''hello''\<rparr> ?fs0 = (?fs2, None)"
    by (simp add: save_def os_WriteFile_def open_errno_def NAME_MAX_def filepath_Join_def
          filepath_Dir_def filepath_Base_def savePath_def lookup_def Let_def)
  have ko: "save \<lparr>Title = ''Alpha'', Body = ''hello''\<rparr> ?bad
          = (?bad1, Some (PathError ''open'' ''data/Alpha.txt'' EISDIR))"
    by (simp add: save_def os_WriteFile_def open_errno_def NAME_MAX_def filepath_Join_def
          filepath_Dir_def filepath_Base_def savePath_def lookup_def Let_def)
  note t = save_handler_outcomes [OF is_page_name_examples(2) b]
  have 1: "saveHandler spec_templates ?r ''Alpha'' ?fs0 = (?fs2, Redirect (''/view/'' @ ''Alpha'') StatusFound)"
    and 2: "snd (viewHandler spec_templates \<lparr>URL_Path = ''/view/Alpha'', Form = []\<rparr> ''Alpha'' ?fs2)
             = Written (ViewPresentation ''Alpha'' (processLinks ''hello''))"
    using t [where templates = spec_templates
               and r' = "\<lparr>URL_Path = ''/view/Alpha'', Form = []\<rparr>",
             THEN conjunct2, THEN conjunct1, THEN mp, OF ok] by simp_all
  have 3: "saveHandler spec_templates ?r ''Alpha'' ?bad
         = (?bad1, HttpError (Error (PathError ''open'' ''data/Alpha.txt'' EISDIR))
                     StatusInternalServerError)"
    using t [where templates = spec_templates, THEN conjunct1, THEN mp, OF ko] by simp
  have 4: "processLinks ''hello'' = ''hello''"
    by (rule t [THEN conjunct2, THEN conjunct2, THEN mp]) simp
  from 1 2 3 4 show ?thesis
    by (simp add: StatusFound_def StatusInternalServerError_def)
qed


text \<open>
  C10. A save request without a \<open>body\<close> field is handled as one with an empty \<open>body\<close>
  field: the handler puts the empty byte sequence under the name, and when that put
  succeeds the record, created or replaced, holds the empty byte sequence, no other
  path has changed, and the answer is the redirect (302) to the view path of the name.
\<close>

theorem save_without_body:
  assumes "is_page_name n" and "map_of (Form r) ''body'' = None"
  shows "saveHandler templates r n fs
           = saveHandler templates (r\<lparr>Form := (''body'', [[]]) # Form r\<rparr>) n fs
       \<and> (save \<lparr>Title = n, Body = []\<rparr> fs = (fs', None) \<longrightarrow>
            saveHandler templates r n fs = (fs', Redirect (''/view/'' @ n) StatusFound)
          \<and> calls fs' = calls fs @ [SysWriteFile (page_file n) [] 384]
          \<and> lookup fs' (page_file n) = Some (RegularFile [])
          \<and> (\<forall>path. path = page_file n \<or> lookup fs' path = lookup fs path))"
proof (intro conjI impI allI)
  have b: "FormValue r ''body'' = []"
    using assms(2) by (simp add: FormValue_def)
  have b2: "FormValue (r\<lparr>Form := (''body'', [[]]) # Form r\<rparr>) ''body'' = []"
    by (simp add: FormValue_def)
  show "saveHandler templates r n fs
           = saveHandler templates (r\<lparr>Form := (''body'', [[]]) # Form r\<rparr>) n fs"
    by (simp only: saveHandler_cases b b2)
  assume s: "save \<lparr>Title = n, Body = []\<rparr> fs = (fs', None)"
  show "saveHandler templates r n fs = (fs', Redirect (''/view/'' @ n) StatusFound)"
    by (simp add: saveHandler_cases b s)
  show "calls fs' = calls fs @ [SysWriteFile (page_file n) [] 384]"
    using save_result [OF assms(1) s] by simp
  have u: "nodes fs' = AList.update (page_file n) (RegularFile []) (nodes fs)"
    using save_result [OF assms(1) s] by simp
  show "lookup fs' (page_file n) = Some (RegularFile [])"
    using u by (simp add: lookup_after_update)
  show "path = page_file n \<or> lookup fs' path = lookup fs path" for path
    using u by (simp add: lookup_after_update)
qed

theorem save_without_body_witness:
  "saveHandler spec_templates \<lparr>URL_Path = ''/save/Alpha'', Form = [(''title'', [''x''])]\<rparr>
       ''Alpha''
       \<lparr>nodes = [(''data'', Directory), (''data/Alpha.txt'', RegularFile ''old'')], calls = []\<rparr>
     = (\<lparr>nodes = [(''data'', Directory), (''data/Alpha.txt'', RegularFile [])],
         calls = [SysWriteFile ''data/Alpha.txt'' [] 384]\<rparr>,
        Redirect ''/view/Alpha'' 302)
   \<and> saveHandler spec_templates \<lparr>URL_Path = ''/save/Alpha'', Form = []\<rparr> ''Alpha''
       \<lparr>nodes = [(''data'', Directory)], calls = []\<rparr>
     = (\<lparr>nodes = [(''data'', Directory), (''data/Alpha.txt'', RegularFile [])],
         calls = [SysWriteFile ''data/Alpha.txt'' [] 384]\<rparr>,
        Redirect ''/view/Alpha'' 302)"
proof -
  let ?r = "\<lparr>URL_Path = ''/save/Alpha'', Form = [(''title'', [''x''])]\<rparr>"
  let ?q = "\<lparr>URL_Path = ''/save/Alpha'', Form = []\<rparr>"
  let ?fs = "\<lparr>nodes = [(''data'', Directory), (''data/Alpha.txt'', RegularFile ''old'')],
              calls = []\<rparr>"
  let ?gs = "\<lparr>nodes = [(''data'', Directory)], calls = []\<rparr>"
  let ?fs' = "\<lparr>nodes = [(''data'', Directory), (''data/Alpha.txt'', RegularFile [])],
         calls = [SysWriteFile ''data/Alpha.txt'' [] 384]\<rparr>"
  have f: "map_of (Form ?r) ''body'' = None" and f0: "map_of (Form ?q) ''body'' = None"
    by simp_all
  have s: "save \<lparr>Title = ''Alpha'', Body = []\<rparr> ?fs = (?fs', None)"
    by (simp add: save_def os_WriteFile_def open_errno_def NAME_MAX_def filepath_Join_def
          filepath_Dir_def filepath_Base_def savePath_def lookup_def Let_def)
  have s0: "save \<lparr>Title = ''Alpha'', Body = []\<rparr> ?gs = (?fs', None)"
    by (simp add: save_def os_WriteFile_def open_errno_def NAME_MAX_def filepath_Join_def
          filepath_Dir_def filepath_Base_def savePath_def lookup_def Let_def)
  have 1: "saveHandler spec_templates ?r ''Alpha'' ?fs
         = (?fs', Redirect (''/view/'' @ ''Alpha'') StatusFound)"
    by (rule save_without_body [OF is_page_name_examples(2) f, THEN conjunct2, THEN mp, OF s,
          THEN conjunct1])
  have 2: "saveHandler spec_templates ?q ''Alpha'' ?gs
         = (?fs', Redirect (''/view/'' @ ''Alpha'') StatusFound)"
    by (rule save_without_body [OF is_page_name_examples(2) f0, THEN conjunct2, THEN mp, OF s0,
          THEN conjunct1])
  have a: "saveHandler spec_templates ?r ''Alpha'' ?fs = (?fs', Redirect ''/view/Alpha'' 302)"
    using 1 by (simp add: StatusFound_def)
  have b: "saveHandler spec_templates ?q ''Alpha'' ?gs = (?fs', Redirect ''/view/Alpha'' 302)"
    using 2 by (simp add: StatusFound_def)
  from a b show ?thesis by (rule conjI)
qed

text \<open>
  C9. Whenever a handler called with a page name answers with a redirect, the target
  is the edit path or the view path of that name, the route pattern matches the target
  and extracts the same name from it, and the router passes a request for the target on
  to the handler it wraps, with that name.
\<close>

theorem redirect_targets_are_routes:
  assumes "is_page_name n"
    and "viewHandler templates r n fs = (fs', Redirect loc code)
       \<or> editHandler templates r n fs = (fs', Redirect loc code)
       \<or> saveHandler templates r n fs = (fs', Redirect loc code)"
  shows "(loc = ''/edit/'' @ n \<or> loc = ''/view/'' @ n)
       \<and> (\<exists>kw. FindStringSubmatch validPath loc = Some [loc, kw, n])
       \<and> makeHandler fn (r'\<lparr>URL_Path := loc\<rparr>) fs'' = fn (r'\<lparr>URL_Path := loc\<rparr>) n fs''"
proof -
  have e: "editHandler templates r n fs \<noteq> (fs', Redirect loc code)"
    by (auto simp: editHandler_def renderTemplate_def split: prod.splits sum.splits)
  from assms(2) e have l: "loc = ''/edit/'' @ n \<or> loc = ''/view/'' @ n"
    by (auto simp: viewHandler_def saveHandler_def renderTemplate_def Let_def
             split: prod.splits sum.splits option.splits)
  then have m: "\<exists>kw. FindStringSubmatch validPath loc = Some [loc, kw, n]"
    using validPath_accepts [OF _ assms(1), of "''edit''"]
      validPath_accepts [OF _ assms(1), of "''view''"] by auto
  then have "makeHandler fn (r'\<lparr>URL_Path := loc\<rparr>) fs'' = fn (r'\<lparr>URL_Path := loc\<rparr>) n fs''"
    by (auto simp: makeHandler_def)
  with l m show ?thesis by simp
qed

theorem redirect_targets_are_routes_witness:
  "viewHandler spec_templates \<lparr>URL_Path = ''/view/Home'', Form = []\<rparr> ''Home''
       \<lparr>nodes = [(''data'', Directory)], calls = []\<rparr>
     = (\<lparr>nodes = [(''data'', Directory)], calls = [SysReadFile ''data/Home.txt'']\<rparr>,
        Redirect ''/edit/Home'' 302)
   \<and> (\<exists>kw. FindStringSubmatch validPath ''/edit/Home'' = Some [''/edit/Home'', kw, ''Home''])
   \<and> makeHandler (editHandler spec_templates) \<lparr>URL_Path = ''/edit/Home'', Form = []\<rparr>
       \<lparr>nodes = [(''data'', Directory)], calls = [SysReadFile ''data/Home.txt'']\<rparr>
     = editHandler spec_templates \<lparr>URL_Path = ''/edit/Home'', Form = []\<rparr> ''Home''
       \<lparr>nodes = [(''data'', Directory)], calls = [SysReadFile ''data/Home.txt'']\<rparr>"
proof -
  have v: "viewHandler spec_templates \<lparr>URL_Path = ''/view/Home'', Form = []\<rparr> ''Home''
       \<lparr>nodes = [(''data'', Directory)], calls = []\<rparr>
     = (\<lparr>nodes = [(''data'', Directory)], calls = [SysReadFile ''data/Home.txt'']\<rparr>,
        Redirect ''/edit/Home'' 302)"
    by (simp add: viewHandler_def loadPage_cases lookup_def page_file_data StatusFound_def)
  from redirect_targets_are_routes [OF is_page_name_examples(3) disjI1, OF v,
      where fn = "editHandler spec_templates"
        and r' = "\<lparr>URL_Path = ''/view/Home'', Form = []\<rparr>"
        and fs'' = "\<lparr>nodes = [(''data'', Directory)], calls = [SysReadFile ''data/Home.txt'']\<rparr>"]
    v
  show ?thesis by simp
qed

section \<open>The page listing\<close>

lemma collect_pages_eq:
  "collect_pages files pages =
     pages @ map (\<lambda>f. strings_TrimSuffix (Name f) ''.txt'')
                 (filter (\<lambda>f. \<not> IsDir f \<and> strings_HasSuffix (Name f) ''.txt'') files)"
  by (induction files arbitrary: pages) (simp_all add: Let_def)

lemma HasSuffix_iff: "strings_HasSuffix s suffix \<longleftrightarrow> (\<exists>p. s = p @ suffix)"
proof
  assume "strings_HasSuffix s suffix"
  then have "drop (length s - length suffix) s = suffix"
    by (simp add: strings_HasSuffix_def)
  then have "s = take (length s - length suffix) s @ suffix"
    using append_take_drop_id [of "length s - length suffix" s] by simp
  then show "\<exists>p. s = p @ suffix" ..
next
  assume "\<exists>p. s = p @ suffix"
  then show "strings_HasSuffix s suffix"
    by (auto simp: strings_HasSuffix_def)
qed

lemma TrimSuffix_append: "strings_TrimSuffix (p @ suffix) suffix = p"
  by (simp add: strings_TrimSuffix_def strings_HasSuffix_def)

lemma path_split:
  assumes "CHR ''/'' \<in> set path"
  shows "path = filepath_Dir path @ CHR ''/'' # filepath_Base path"
    and "CHR ''/'' \<notin> set (filepath_Base path)"
proof -
  let ?P = "\<lambda>c. c \<noteq> CHR ''/''"
  let ?d = "dropWhile ?P (rev path)"
  have "?d \<noteq> []" using assms by (simp add: dropWhile_eq_Nil_conv)
  moreover from this have "\<not> ?P (hd ?d)" by (rule hd_dropWhile)
  ultimately have d: "?d = CHR ''/'' # drop 1 ?d"
    by (cases ?d) simp_all
  have "rev path = takeWhile ?P (rev path) @ ?d" by simp
  then have "rev path = takeWhile ?P (rev path) @ CHR ''/'' # drop 1 ?d"
    using d by simp
  from arg_cong [OF this, of rev]
  show "path = filepath_Dir path @ CHR ''/'' # filepath_Base path"
    by (simp add: filepath_Dir_def filepath_Base_def)
  show "CHR ''/'' \<notin> set (filepath_Base path)"
    using set_takeWhileD [of "CHR ''/''" ?P "rev path"]
    by (auto simp: filepath_Base_def)
qed

lemma child_of_iff:
  "child_of dir path \<longleftrightarrow> (\<exists>b. path = dir @ CHR ''/'' # b \<and> b \<noteq> [] \<and> CHR ''/'' \<notin> set b)"
proof
  assume c: "child_of dir path"
  then have s: "CHR ''/'' \<in> set path" and d: "filepath_Dir path = dir"
    and b: "filepath_Base path \<noteq> []"
    by (simp_all add: child_of_def)
  from path_split [OF s] d b
  show "\<exists>b. path = dir @ CHR ''/'' # b \<and> b \<noteq> [] \<and> CHR ''/'' \<notin> set b"
    by metis
next
  assume "\<exists>b. path = dir @ CHR ''/'' # b \<and> b \<noteq> [] \<and> CHR ''/'' \<notin> set b"
  then obtain b where p: "path = filepath_Join dir b" and b: "b \<noteq> []" "CHR ''/'' \<notin> set b"
    by (auto simp: filepath_Join_def)
  show "child_of dir path"
    unfolding child_of_def p filepath_Dir_Join [OF b(2)] filepath_Base_Join [OF b(2)]
    using b(1) by (simp add: filepath_Join_def)
qed

lemma child_of_Base:
  "child_of dir path \<Longrightarrow> path = dir @ CHR ''/'' # filepath_Base path"
  using path_split(1) [of path] by (simp add: child_of_def)

lemma in_clearjunk_iff: "(p, nd) \<in> set (AList.clearjunk al) \<longleftrightarrow> map_of al p = Some nd"
  using map_of_eq_Some_iff [OF distinct_clearjunk, of al p nd]
  by (simp add: map_of_clearjunk)

lemma os_ReadDir_cases:
  "os_ReadDir name fs =
     (fs\<lparr>calls := calls fs @ [SysReadDir name]\<rparr>,
      case lookup fs name of
        None \<Rightarrow> Inl (PathError ''open'' name ENOENT)
      | Some (RegularFile _) \<Rightarrow> Inl (PathError ''open'' name ENOTDIR)
      | Some Directory \<Rightarrow> Inr (dir_entries name fs))"
  by (simp add: os_ReadDir_def dir_entries_def Let_def split: option.splits node.splits)

lemma dir_entries_set:
  "e \<in> set (dir_entries dir fs) \<longleftrightarrow>
     (\<exists>b nd. lookup fs (dir @ CHR ''/'' # b) = Some nd \<and> b \<noteq> [] \<and> CHR ''/'' \<notin> set b
            \<and> e = \<lparr>Name = b, IsDir = (nd = Directory)\<rparr>)"
proof
  assume "e \<in> set (dir_entries dir fs)"
  then obtain p nd where m: "(p, nd) \<in> set (AList.clearjunk (nodes fs))" and c: "child_of dir p"
    and e: "e = \<lparr>Name = filepath_Base p, IsDir = (nd = Directory)\<rparr>"
    by (auto simp: dir_entries_def)
  from c obtain b where b: "p = dir @ CHR ''/'' # b" "b \<noteq> []" "CHR ''/'' \<notin> set b"
    unfolding child_of_iff by blast
  have "filepath_Base p = b"
    using filepath_Base_Join [OF b(3), of dir] b(1) by (simp add: filepath_Join_def)
  moreover have "lookup fs p = Some nd"
    using m by (simp add: in_clearjunk_iff lookup_def)
  ultimately show "\<exists>b nd. lookup fs (dir @ CHR ''/'' # b) = Some nd \<and> b \<noteq> [] \<and> CHR ''/'' \<notin> set b
            \<and> e = \<lparr>Name = b, IsDir = (nd = Directory)\<rparr>"
    using b e by - (rule exI [of _ b], rule exI [of _ nd], simp)
next
  assume "\<exists>b nd. lookup fs (dir @ CHR ''/'' # b) = Some nd \<and> b \<noteq> [] \<and> CHR ''/'' \<notin> set b
            \<and> e = \<lparr>Name = b, IsDir = (nd = Directory)\<rparr>"
  then obtain b nd where l: "lookup fs (dir @ CHR ''/'' # b) = Some nd"
    and b: "b \<noteq> []" "CHR ''/'' \<notin> set b" and e: "e = \<lparr>Name = b, IsDir = (nd = Directory)\<rparr>"
    by blast
  let ?p = "dir @ CHR ''/'' # b"
  have m: "(?p, nd) \<in> set (AList.clearjunk (nodes fs))"
    using l by (simp add: in_clearjunk_iff lookup_def)
  have c: "child_of dir ?p" unfolding child_of_iff using b by blast
  have "filepath_Base ?p = b"
    using filepath_Base_Join [OF b(2), of dir] by (simp add: filepath_Join_def)
  then have "e = (\<lambda>(path, nd). \<lparr>Name = filepath_Base path, IsDir = (nd = Directory)\<rparr>) (?p, nd)"
    using e by simp
  moreover have "(?p, nd) \<in> set (filter (\<lambda>(path, nd). child_of dir path) (AList.clearjunk (nodes fs)))"
    using m c by simp
  ultimately show "e \<in> set (dir_entries dir fs)"
    unfolding dir_entries_def by (metis (no_types, lifting) image_eqI set_map set_sort)
qed

lemma dir_entries_distinct: "distinct (map Name (dir_entries dir fs))"
proof -
  let ?cj = "filter (\<lambda>(path, nd). child_of dir path) (AList.clearjunk (nodes fs))"
  let ?g = "\<lambda>(path, nd). \<lparr>Name = filepath_Base path, IsDir = (nd = Directory)\<rparr>"
  have 1: "distinct (map fst ?cj)"
    using distinct_clearjunk [of "nodes fs"] by (rule distinct_map_filter)
  have 2: "inj_on filepath_Base (set (map fst ?cj))"
  proof (rule inj_onI)
    fix p q assume "p \<in> set (map fst ?cj)" "q \<in> set (map fst ?cj)"
      and eq: "filepath_Base p = filepath_Base q"
    then have "child_of dir p" "child_of dir q" by auto
    then have "p = dir @ CHR ''/'' # filepath_Base p" "q = dir @ CHR ''/'' # filepath_Base q"
      by (simp_all add: child_of_Base [symmetric])
    with eq show "p = q" by simp
  qed
  have "map Name (map ?g ?cj) = map filepath_Base (map fst ?cj)"
    by (simp add: case_prod_unfold)
  then have 3: "distinct (map Name (map ?g ?cj))"
    using 1 2 by (simp only: distinct_map)
  then have "distinct (map ?g ?cj)" and "inj_on Name (set (map ?g ?cj))"
    by (simp_all only: distinct_map)
  then have "distinct (sort_key Name (map ?g ?cj))"
    and "inj_on Name (set (sort_key Name (map ?g ?cj)))"
    by simp_all
  then show ?thesis
    unfolding dir_entries_def by (simp only: distinct_map)
qed

lemma getAllPages_cases:
  "getAllPages fs =
     (fs\<lparr>calls := calls fs @ [SysReadDir savePath]\<rparr>,
      case lookup fs savePath of
        None \<Rightarrow> Inl (PathError ''open'' savePath ENOENT)
      | Some (RegularFile _) \<Rightarrow> Inl (PathError ''open'' savePath ENOTDIR)
      | Some Directory \<Rightarrow>
          Inr (map (\<lambda>f. strings_TrimSuffix (Name f) ''.txt'')
                 (filter (\<lambda>f. \<not> IsDir f \<and> strings_HasSuffix (Name f) ''.txt'')
                         (dir_entries savePath fs))))"
  by (simp add: getAllPages_def os_ReadDir_cases collect_pages_eq
           split: option.splits node.splits)

lemma listed_iff:
  "n \<in> set (map (\<lambda>f. strings_TrimSuffix (Name f) ''.txt'')
                 (filter (\<lambda>f. \<not> IsDir f \<and> strings_HasSuffix (Name f) ''.txt'')
                         (dir_entries savePath fs)))
   \<longleftrightarrow> CHR ''/'' \<notin> set n \<and> (\<exists>c. lookup fs (page_file n) = Some (RegularFile c))"
proof
  assume "n \<in> set (map (\<lambda>f. strings_TrimSuffix (Name f) ''.txt'')
                 (filter (\<lambda>f. \<not> IsDir f \<and> strings_HasSuffix (Name f) ''.txt'')
                         (dir_entries savePath fs)))"
  then obtain e where e: "e \<in> set (dir_entries savePath fs)" "\<not> IsDir e"
      "strings_HasSuffix (Name e) ''.txt''" and n: "n = strings_TrimSuffix (Name e) ''.txt''"
    by auto
  from e(1) obtain b nd where l: "lookup fs (savePath @ CHR ''/'' # b) = Some nd"
    and b: "CHR ''/'' \<notin> set b" and eb: "e = \<lparr>Name = b, IsDir = (nd = Directory)\<rparr>"
    unfolding dir_entries_set by blast
  from e(3) eb obtain p where p: "b = p @ ''.txt''"
    by (auto simp: HasSuffix_iff)
  have np: "n = p" using n eb p TrimSuffix_append [of p "''.txt''"] by simp
  from e(2) eb obtain c where c: "nd = RegularFile c" by (cases nd) simp_all
  have "lookup fs (page_file n) = Some (RegularFile c)"
    using l c p np by (simp add: page_file_def filepath_Join_def)
  moreover have "CHR ''/'' \<notin> set n" using b p np by simp
  ultimately show "CHR ''/'' \<notin> set n \<and> (\<exists>c. lookup fs (page_file n) = Some (RegularFile c))"
    by blast
next
  assume "CHR ''/'' \<notin> set n \<and> (\<exists>c. lookup fs (page_file n) = Some (RegularFile c))"
  then obtain c where s: "CHR ''/'' \<notin> set n"
    and l: "lookup fs (page_file n) = Some (RegularFile c)" by blast
  let ?e = "\<lparr>Name = n @ ''.txt'', IsDir = False\<rparr>"
  have "lookup fs (savePath @ CHR ''/'' # (n @ ''.txt'')) = Some (RegularFile c)"
    using l by (simp add: page_file_def filepath_Join_def)
  moreover have "n @ ''.txt'' \<noteq> []" "CHR ''/'' \<notin> set (n @ ''.txt'')" using s by simp_all
  moreover have "?e = \<lparr>Name = n @ ''.txt'', IsDir = (RegularFile c = Directory)\<rparr>" by simp
  ultimately have "?e \<in> set (dir_entries savePath fs)"
    unfolding dir_entries_set by blast
  moreover have "strings_HasSuffix (Name ?e) ''.txt''"
    unfolding HasSuffix_iff by simp
  ultimately have "?e \<in> set (filter (\<lambda>f. \<not> IsDir f \<and> strings_HasSuffix (Name f) ''.txt'')
                         (dir_entries savePath fs))"
    by simp
  from imageI [OF this, of "\<lambda>f. strings_TrimSuffix (Name f) ''.txt''"]
  have "strings_TrimSuffix (Name ?e) ''.txt''
      \<in> set (map (\<lambda>f. strings_TrimSuffix (Name f) ''.txt'')
                 (filter (\<lambda>f. \<not> IsDir f \<and> strings_HasSuffix (Name f) ''.txt'')
                         (dir_entries savePath fs)))"
    by (simp only: set_map)
  moreover have "strings_TrimSuffix (Name ?e) ''.txt'' = n"
    using TrimSuffix_append [of n "''.txt''"] by simp
  ultimately show "n \<in> set (map (\<lambda>f. strings_TrimSuffix (Name f) ''.txt'')
                 (filter (\<lambda>f. \<not> IsDir f \<and> strings_HasSuffix (Name f) ''.txt'')
                         (dir_entries savePath fs)))"
    by simp
qed

lemma listed_distinct:
  "distinct (map (\<lambda>f. strings_TrimSuffix (Name f) ''.txt'')
                 (filter (\<lambda>f. \<not> IsDir f \<and> strings_HasSuffix (Name f) ''.txt'')
                         (dir_entries savePath fs)))"
proof -
  let ?P = "\<lambda>f. \<not> IsDir f \<and> strings_HasSuffix (Name f) ''.txt''"
  let ?es = "filter ?P (dir_entries savePath fs)"
  have 1: "distinct (map Name ?es)"
    using dir_entries_distinct by (rule distinct_map_filter)
  have 2: "inj_on (\<lambda>s. strings_TrimSuffix s ''.txt'') (set (map Name ?es))"
  proof (rule inj_onI)
    fix s t assume "s \<in> set (map Name ?es)" "t \<in> set (map Name ?es)"
      and eq: "strings_TrimSuffix s ''.txt'' = strings_TrimSuffix t ''.txt''"
    then have "strings_HasSuffix s ''.txt''" "strings_HasSuffix t ''.txt''" by auto
    then obtain p q where "s = p @ ''.txt''" "t = q @ ''.txt''"
      unfolding HasSuffix_iff by blast
    with eq TrimSuffix_append [of p "''.txt''"] TrimSuffix_append [of q "''.txt''"]
    show "s = t" by simp
  qed
  have "map (\<lambda>f. strings_TrimSuffix (Name f) ''.txt'') ?es
      = map (\<lambda>s. strings_TrimSuffix s ''.txt'') (map Name ?es)"
    by simp
  then show ?thesis
    using 1 2 by (simp only: distinct_map)
qed


text \<open>
  C8. When the data directory can be read, \<open>getAllPages\<close> returns without error a
  list without repetitions that holds a name exactly when the regular file of that
  name plus \<open>.txt\<close> is in the data directory; it is the empty list when there is no such
  file. It returns an error exactly when the data directory itself cannot be read (it
  is missing or is not a directory).
\<close>

theorem list_pages:
  "(lookup fs savePath = Some Directory \<longrightarrow>
      (\<exists>ps. getAllPages fs = (fs\<lparr>calls := calls fs @ [SysReadDir savePath]\<rparr>, Inr ps)
         \<and> distinct ps
         \<and> (\<forall>n. (n \<in> set ps)
                = (CHR ''/'' \<notin> set n \<and> (\<exists>c. lookup fs (page_file n) = Some (RegularFile c))))))
   \<and> (lookup fs savePath = Some Directory
        \<and> (\<forall>n c. lookup fs (page_file n) \<noteq> Some (RegularFile c)) \<longrightarrow>
      getAllPages fs = (fs\<lparr>calls := calls fs @ [SysReadDir savePath]\<rparr>, Inr []))
   \<and> (lookup fs savePath \<noteq> Some Directory \<longrightarrow>
      (\<exists>e. getAllPages fs = (fs\<lparr>calls := calls fs @ [SysReadDir savePath]\<rparr>, Inl e)))"
proof (intro conjI impI)
  let ?ps = "map (\<lambda>f. strings_TrimSuffix (Name f) ''.txt'')
                 (filter (\<lambda>f. \<not> IsDir f \<and> strings_HasSuffix (Name f) ''.txt'')
                         (dir_entries savePath fs))"
  {
    assume d: "lookup fs savePath = Some Directory"
    then have g: "getAllPages fs = (fs\<lparr>calls := calls fs @ [SysReadDir savePath]\<rparr>, Inr ?ps)"
      by (simp add: getAllPages_cases)
    then show "\<exists>ps. getAllPages fs = (fs\<lparr>calls := calls fs @ [SysReadDir savePath]\<rparr>, Inr ps)
         \<and> distinct ps
         \<and> (\<forall>n. (n \<in> set ps)
                = (CHR ''/'' \<notin> set n \<and> (\<exists>c. lookup fs (page_file n) = Some (RegularFile c))))"
      using listed_distinct [of fs] listed_iff [of _ fs]
      by (intro exI [of _ ?ps] conjI allI)
  }
  {
    assume "lookup fs savePath = Some Directory
        \<and> (\<forall>n c. lookup fs (page_file n) \<noteq> Some (RegularFile c))"
    then have d: "lookup fs savePath = Some Directory"
      and none: "\<And>n c. lookup fs (page_file n) \<noteq> Some (RegularFile c)" by simp_all
    have "n \<notin> set ?ps" for n
      unfolding listed_iff using none by simp
    note notin = this
    have "?ps = []"
    proof (rule ccontr)
      assume "?ps \<noteq> []"
      then have "hd ?ps \<in> set ?ps" by (rule hd_in_set)
      with notin [of "hd ?ps"] show False by (rule notE)
    qed
    then show "getAllPages fs = (fs\<lparr>calls := calls fs @ [SysReadDir savePath]\<rparr>, Inr [])"
      using d by (simp add: getAllPages_cases)
  }
  {
    assume "lookup fs savePath \<noteq> Some Directory"
    then show "\<exists>e. getAllPages fs = (fs\<lparr>calls := calls fs @ [SysReadDir savePath]\<rparr>, Inl e)"
      by (cases "lookup fs savePath") (auto simp: getAllPages_cases split: node.splits)
  }
qed

lemma eval_listing:
  "getAllPages
     \<lparr>nodes = [(''data'', Directory), (''data/B.txt'', RegularFile ''b''),
               (''data/A.txt'', RegularFile ''a''), (''data/D.txt'', Directory),
               (''data/x.md'', RegularFile []), (''data/sub'', Directory),
               (''data/sub/C.txt'', RegularFile ''c'')],
      calls = []\<rparr>
   = (\<lparr>nodes = [(''data'', Directory), (''data/B.txt'', RegularFile ''b''),
               (''data/A.txt'', RegularFile ''a''), (''data/D.txt'', Directory),
               (''data/x.md'', RegularFile []), (''data/sub'', Directory),
               (''data/sub/C.txt'', RegularFile ''c'')],
       calls = [SysReadDir ''data'']\<rparr>, Inr [''A'', ''B''])"
  by code_simp


theorem list_pages_witness:
  "(\<exists>ps. getAllPages
            \<lparr>nodes = [(''data'', Directory), (''data/B.txt'', RegularFile ''b''),
                      (''data/A.txt'', RegularFile ''a''), (''data/D.txt'', Directory)],
             calls = []\<rparr>
          = (\<lparr>nodes = [(''data'', Directory), (''data/B.txt'', RegularFile ''b''),
                      (''data/A.txt'', RegularFile ''a''), (''data/D.txt'', Directory)],
              calls = [SysReadDir ''data'']\<rparr>, Inr ps)
        \<and> distinct ps \<and> ''A'' \<in> set ps \<and> ''B'' \<in> set ps \<and> ''D'' \<notin> set ps)
   \<and> getAllPages \<lparr>nodes = [(''data'', Directory)], calls = []\<rparr>
       = (\<lparr>nodes = [(''data'', Directory)], calls = [SysReadDir ''data'']\<rparr>, Inr [])
   \<and> (\<exists>e. getAllPages \<lparr>nodes = [], calls = []\<rparr>
           = (\<lparr>nodes = [], calls = [SysReadDir ''data'']\<rparr>, Inl e))"
proof -
  let ?fsA = "\<lparr>nodes = [(''data'', Directory), (''data/B.txt'', RegularFile ''b''),
                      (''data/A.txt'', RegularFile ''a''), (''data/D.txt'', Directory)],
             calls = []\<rparr>"
  let ?fsE = "\<lparr>nodes = [(''data'', Directory)], calls = []\<rparr>"
  let ?fsX = "\<lparr>nodes = [], calls = []\<rparr>"
  have dA: "lookup ?fsA savePath = Some Directory"
    by (simp add: lookup_def savePath_def)
  have dE: "lookup ?fsE savePath = Some Directory
          \<and> (\<forall>n c. lookup ?fsE (page_file n) \<noteq> Some (RegularFile c))"
    by (simp add: lookup_def savePath_def page_file_data)
  have dX: "lookup ?fsX savePath \<noteq> Some Directory"
    by (simp add: lookup_def)
  from list_pages [of ?fsA, THEN conjunct1, THEN mp, OF dA]
  obtain ps where g: "getAllPages ?fsA = (?fsA\<lparr>calls := calls ?fsA @ [SysReadDir savePath]\<rparr>, Inr ps)"
    and d: "distinct ps"
    and m: "\<And>n. (n \<in> set ps)
          = (CHR ''/'' \<notin> set n \<and> (\<exists>c. lookup ?fsA (page_file n) = Some (RegularFile c)))"
    by blast
  have "''A'' \<in> set ps" "''B'' \<in> set ps" "''D'' \<notin> set ps"
    unfolding m by (simp_all add: lookup_def page_file_data)
  with g d have 1: "\<exists>ps. getAllPages ?fsA
          = (\<lparr>nodes = [(''data'', Directory), (''data/B.txt'', RegularFile ''b''),
                      (''data/A.txt'', RegularFile ''a''), (''data/D.txt'', Directory)],
              calls = [SysReadDir ''data'']\<rparr>, Inr ps)
        \<and> distinct ps \<and> ''A'' \<in> set ps \<and> ''B'' \<in> set ps \<and> ''D'' \<notin> set ps"
    by (intro exI [of _ ps]) (simp add: savePath_def)
  have 2: "getAllPages ?fsE
       = (\<lparr>nodes = [(''data'', Directory)], calls = [SysReadDir ''data'']\<rparr>, Inr [])"
    using list_pages [of ?fsE, THEN conjunct2, THEN conjunct1, THEN mp, OF dE]
    by (simp add: savePath_def)
  have 3: "\<exists>e. getAllPages ?fsX = (\<lparr>nodes = [], calls = [SysReadDir ''data'']\<rparr>, Inl e)"
    using list_pages [of ?fsX, THEN conjunct2, THEN conjunct2, THEN mp, OF dX]
    by (simp add: savePath_def)
  from 1 2 3 show ?thesis by (intro conjI)
qed

end
